theory Spec2Isabelle
  imports Complex_Main "HOL-Library.Finite_Map"
begin

section \<open>Workflow graph model\<close>

text \<open>
  The workflow engine of the repository: the DAG helpers of \<^verbatim>\<open>src/lib/dag.ts\<close> and the
  node executors, the bounded downloader and the duration probe of the execution module
  (\<^verbatim>\<open>lib/execution\<close>, together with the \<^verbatim>\<open>extract-frame\<close> task).

  A finite JavaScript number is modelled by the real it denotes, and every arithmetic
  operation rounds its exact result to binary64 (\<open>NaN\<close> and the infinities are made
  explicit where the code can meet them); strings are modelled by \<open>string\<close>, a thrown
  \<open>Error\<close> by the left injection of a sum carrying the message.
\<close>

subsection \<open>Nodes and edges\<close>

text \<open>
  \<^verbatim>\<open>node.data\<close> is a \<^verbatim>\<open>Record<string, unknown>\<close>; the fields the executors read carry the
  types the zod schemas of \<^verbatim>\<open>lib/types\<close> give them, an absent field is \<open>None\<close>.
\<close>

record NodeData =
  dtype :: "string option"
  userMessage :: "string option"
  imageUrl :: "string option"
  videoUrl :: "string option"
  timestamp :: "string option"
  xPercent :: "real option"
  yPercent :: "real option"
  widthPercent :: "real option"
  heightPercent :: "real option"

text \<open>The field \<^verbatim>\<open>id\<close> is called \<open>ident\<close>, \<^verbatim>\<open>type\<close> is called \<open>ntype\<close>.\<close>

record WorkflowNode =
  ident :: string
  ntype :: string
  data :: NodeData

record WorkflowEdge =
  source :: string
  target :: string

text \<open>One entry of \<^verbatim>\<open>upstreamData\<close>; an output that is \<^verbatim>\<open>undefined\<close> is \<open>None\<close>.\<close>

record Upstream =
  up_nodeId :: string
  up_output :: "string option"

text \<open>\<^verbatim>\<open>v || d\<close> on an optional string: \<^verbatim>\<open>undefined\<close> and the empty string are falsy.\<close>

definition str_or :: "string option \<Rightarrow> string \<Rightarrow> string" where
  "str_or v d = (case v of None \<Rightarrow> d | Some s \<Rightarrow> if s = [] then d else s)"

text \<open>\<^verbatim>\<open>!v\<close> on an optional string.\<close>

definition str_falsy :: "string option \<Rightarrow> bool" where
  "str_falsy v = (case v of None \<Rightarrow> True | Some s \<Rightarrow> s = [])"

text \<open>A node whose data carries no field at all.\<close>

definition emptyData :: NodeData where
  "emptyData = \<lparr>dtype = None, userMessage = None, imageUrl = None, videoUrl = None,
     timestamp = None, xPercent = None, yPercent = None, widthPercent = None,
     heightPercent = None\<rparr>"

subsection \<open>JavaScript strings and numbers\<close>

text \<open>
  A JavaScript number: \<open>NaN\<close>, the two infinities, and the finite values, each the real
  it denotes. The sign of a zero is not kept: no path of the code tells \<open>-0\<close> from \<open>0\<close>
  (comparisons do not, and both print as \<open>0\<close>).
\<close>

datatype jsnum = NaN | Fin real | PosInf | NegInf

text \<open>
  Rounding to binary64, to the nearest value and to the even significand on a tie.
  \<open>roundEven\<close> rounds to an integer in that way.
\<close>

definition roundEven :: "real \<Rightarrow> int" where
  "roundEven y = (let f = \<lfloor>y\<rfloor>; r = y - of_int f in
     if r < 1 / 2 then f else if 1 / 2 < r then f + 1 else if even f then f else f + 1)"

text \<open>
  The binary exponent of a number \<open>a \<ge> 0\<close>: the \<open>e\<close> with \<open>2 ^ e \<le> a < 2 ^ (e + 1)\<close>, kept
  within the exponents of binary64, from \<open>-1022\<close> (which the subnormal numbers share) to
  \<open>1023\<close>. It is found by halving or doubling, at most so many times.
\<close>

primrec halvings :: "nat \<Rightarrow> real \<Rightarrow> nat" where
  "halvings 0 x = 0"
| "halvings (Suc n) x = (if x < 2 then 0 else Suc (halvings n (x / 2)))"

primrec doublings :: "nat \<Rightarrow> real \<Rightarrow> nat" where
  "doublings 0 x = 0"
| "doublings (Suc n) x = (if 1 \<le> x then 0 else Suc (doublings n (2 * x)))"

definition exponent64 :: "real \<Rightarrow> int" where
  "exponent64 a = (if 1 \<le> a then int (halvings 1023 a) else - int (doublings 1022 a))"

text \<open>
  \<open>round64 x\<close> is the multiple of \<open>2 ^ (e - 52)\<close> nearest to \<open>x\<close>, where \<open>e\<close> is the exponent
  of \<open>x\<close>: the binary64 value of \<open>x\<close> as long as it is below \<open>2 ^ 1024\<close>. \<open>fl\<close> is the
  Number that an operation with the exact result \<open>x\<close> returns, an infinity on overflow.
\<close>

definition round64 :: "real \<Rightarrow> real" where
  "round64 x = (let a = \<bar>x\<bar>; u = 2 powi (exponent64 a - 52);
                    r = of_int (roundEven (a / u)) * u
                in if x < 0 then - r else r)"

definition fl :: "real \<Rightarrow> jsnum" where
  "fl x = (let r = round64 x in
           if 2 ^ 1024 \<le> r then PosInf else if r \<le> - (2 ^ 1024) then NegInf else Fin r)"




definition isDigit :: "char \<Rightarrow> bool" where
  "isDigit c = (c \<in> set ''0123456789'')"

text \<open>White space of \<^verbatim>\<open>\s\<close>, \<^verbatim>\<open>trim\<close> and the numeric parsers, within the 8-bit characters.\<close>

definition isSpace :: "char \<Rightarrow> bool" where
  "isSpace c = (c \<in> set [CHR '' '', CHR 0x09, CHR 0x0A, CHR 0x0B, CHR 0x0C, CHR 0x0D, CHR 0xA0])"

definition isAlnum :: "char \<Rightarrow> bool" where
  "isAlnum c = (c \<in> set ''abcdefghijklmnopqrstuvwxyzABCDEFGHIJKLMNOPQRSTUVWXYZ0123456789'')"

definition digitVal :: "char \<Rightarrow> nat" where
  "digitVal c = of_char c - 48"

definition digitsVal :: "string \<Rightarrow> nat" where
  "digitsVal ds = foldl (\<lambda>a c. 10 * a + digitVal c) 0 ds"

definition startsWith :: "string \<Rightarrow> string \<Rightarrow> bool" where
  "startsWith s p = (take (length p) s = p)"

definition endsWith :: "string \<Rightarrow> string \<Rightarrow> bool" where
  "endsWith s p = (length p \<le> length s \<and> drop (length s - length p) s = p)"

text \<open>\<^verbatim>\<open>s.includes(p)\<close> (\<open>includes\<close> is a keyword of Isabelle).\<close>

fun includesStr :: "string \<Rightarrow> string \<Rightarrow> bool" where
  "includesStr [] p = (p = [])"
| "includesStr (c # s) p = (startsWith (c # s) p \<or> includesStr s p)"

text \<open>\<^verbatim>\<open>s.replace(p, r)\<close> with a string pattern: the first occurrence only.\<close>

fun replaceFirst :: "string \<Rightarrow> string \<Rightarrow> string \<Rightarrow> string" where
  "replaceFirst [] p r = (if p = [] then r else [])"
| "replaceFirst (c # s) p r =
     (if startsWith (c # s) p then r @ drop (length p) (c # s) else c # replaceFirst s p r)"

definition trim :: "string \<Rightarrow> string" where
  "trim s = rev (dropWhile isSpace (rev (dropWhile isSpace s)))"

definition pow10 :: "int \<Rightarrow> real" where
  "pow10 e = (if 0 \<le> e then 10 ^ nat e else 1 / 10 ^ nat (- e))"

text \<open>An optional sign: whether it is a minus, and the rest.\<close>

definition signOf :: "string \<Rightarrow> bool \<times> string" where
  "signOf s = (case s of [] \<Rightarrow> (False, [])
     | c # t \<Rightarrow> if c = CHR ''-'' then (True, t) else if c = CHR ''+'' then (False, t)
               else (False, c # t))"

text \<open>The exponent part \<^verbatim>\<open>[eE][+-]?digits\<close> at the head of a string, 0 when there is none.\<close>

definition exponentOf :: "string \<Rightarrow> int" where
  "exponentOf s = (case s of [] \<Rightarrow> 0
     | c # t \<Rightarrow> if c = CHR ''e'' \<or> c = CHR ''E'' then
                 (let (neg, u) = signOf t; ds = takeWhile isDigit u in
                  if ds = [] then 0
                  else if neg then - int (digitsVal ds) else int (digitsVal ds))
               else 0)"

text \<open>
  \<^verbatim>\<open>parseFloat\<close>: leading white space is skipped, the longest prefix that is a decimal
  literal (sign, \<^verbatim>\<open>Infinity\<close> or digits with an optional fraction and exponent) is read,
  and the result is \<open>NaN\<close> when there is no such prefix. The number is the binary64 value
  nearest to the decimal value of the literal.
\<close>

definition parseFloat :: "string \<Rightarrow> jsnum" where
  "parseFloat s =
     (let (neg, u) = signOf (dropWhile isSpace s) in
      if startsWith u ''Infinity'' then (if neg then NegInf else PosInf)
      else
        let ip = takeWhile isDigit u; r1 = dropWhile isDigit u;
            hasDot = (r1 \<noteq> [] \<and> hd r1 = CHR ''.'');
            fp = (if hasDot then takeWhile isDigit (tl r1) else []);
            r2 = (if hasDot then dropWhile isDigit (tl r1) else r1)
        in if ip = [] \<and> fp = [] then NaN
           else
             let m = real (digitsVal ip) + real (digitsVal fp) / 10 ^ length fp;
                 v = m * pow10 (exponentOf r2)
             in fl (if neg then - v else v))"

definition hexVal :: "char \<Rightarrow> nat option" where
  "hexVal c =
     (if isDigit c then Some (digitVal c)
      else if c \<in> set ''abcdef'' then Some (of_char c - 87)
      else if c \<in> set ''ABCDEF'' then Some (of_char c - 55)
      else None)"

text \<open>
  \<^verbatim>\<open>parseInt\<close> without a radix: white space, a sign, then hexadecimal digits after
  \<^verbatim>\<open>0x\<close> or decimal digits; \<open>None\<close> is \<open>NaN\<close>.
\<close>

definition parseInt :: "string \<Rightarrow> int option" where
  "parseInt s =
     (let (neg, u) = signOf (dropWhile isSpace s);
          sgn = (\<lambda>n. if neg then - int n else int n)
      in if startsWith u ''0x'' \<or> startsWith u ''0X'' then
           (let hs = takeWhile (\<lambda>c. hexVal c \<noteq> None) (drop 2 u) in
            if hs = [] then None
            else Some (sgn (foldl (\<lambda>a c. 16 * a + the (hexVal c)) 0 hs)))
         else
           (let ds = takeWhile isDigit u in
            if ds = [] then None else Some (sgn (digitsVal ds))))"

text \<open>Decimal rendering of a natural number and of an integer, as template literals
  do.\<close>

fun showNat :: "nat \<Rightarrow> string" where
  "showNat n = (if n < 10 then [char_of (48 + n)]
                else showNat (n div 10) @ [char_of (48 + n mod 10)])"

declare showNat.simps [simp del]

definition showInt :: "int \<Rightarrow> string" where
  "showInt i = (if i < 0 then CHR ''-'' # showNat (nat (- i)) else showNat (nat i))"

text \<open>
  The decimal exponent of a number \<open>a > 0\<close>, the \<open>e\<close> with \<open>10 ^ e \<le> a < 10 ^ (e + 1)\<close>, within
  the range of binary64.
\<close>

primrec tenths :: "nat \<Rightarrow> real \<Rightarrow> nat" where
  "tenths 0 x = 0"
| "tenths (Suc n) x = (if x < 10 then 0 else Suc (tenths n (x / 10)))"

primrec tenfolds :: "nat \<Rightarrow> real \<Rightarrow> nat" where
  "tenfolds 0 x = 0"
| "tenfolds (Suc n) x = (if 1 \<le> x then 0 else Suc (tenfolds n (10 * x)))"

definition exponent10 :: "real \<Rightarrow> int" where
  "exponent10 a = (if 1 \<le> a then int (tenths 308 a) else - int (tenfolds 324 a))"

text \<open>
  \<^verbatim>\<open>Number::toString\<close> takes integers \<open>n\<close>, \<open>k\<close> and \<open>s\<close> with \<open>k \<ge> 1\<close>,
  \<open>10 ^ (k - 1) \<le> s < 10 ^ k\<close>, \<open>s * 10 ^ (n - k)\<close> rounding to the number, and \<open>k\<close> as small as
  possible; of several \<open>s\<close> the one that comes closest to the number, the even one on a
  tie. \<open>digitsAt x k\<close> is that \<open>s\<close> and \<open>n\<close> for a given \<open>k\<close> and a binary64 value
  \<open>x > 0\<close>, if there is one: only the two multiples of \<open>10 ^ (n - k)\<close> next to \<open>x\<close> can round
  to it.
\<close>

definition digitsAt :: "real \<Rightarrow> nat \<Rightarrow> (int \<times> int) option" where
  "digitsAt x k =
     (let e = exponent10 x; scale = 10 powi (e + 1 - int k);
          lo = \<lfloor>x / scale\<rfloor>; hi = lo + 1;
          okLo = (fl (of_int lo * scale) = Fin x);
          okHi = (fl (of_int hi * scale) = Fin x);
          dLo = x - of_int lo * scale; dHi = of_int hi * scale - x
      in if okLo \<and> (\<not> okHi \<or> dLo < dHi \<or> (dLo = dHi \<and> even lo)) then Some (lo, e + 1)
         else if okHi then (if hi = 10 ^ k then Some (10 ^ (k - 1), e + 2) else Some (hi, e + 1))
         else None)"

text \<open>The smallest \<open>k\<close> from \<open>k\<close> on, within so many tries (17 digits tell any two
  binary64 values apart, so that the search from 1 ends within 17).\<close>

primrec searchDigits :: "nat \<Rightarrow> real \<Rightarrow> nat \<Rightarrow> nat \<times> int \<times> int" where
  "searchDigits 0 x k = (k, 0, 0)"
| "searchDigits (Suc tries) x k =
     (case digitsAt x k of Some (s, n) \<Rightarrow> (k, s, n) | None \<Rightarrow> searchDigits tries x (Suc k))"

text \<open>\<^verbatim>\<open>Number::toString\<close> in radix 10, which template literals and \<^verbatim>\<open>String\<close> apply.\<close>

definition positiveToString :: "real \<Rightarrow> string" where
  "positiveToString x =
     (case searchDigits 17 x 1 of
        (k, s, n) \<Rightarrow>
          let ds = showNat (nat s) in
          if int k \<le> n \<and> n \<le> 21 then ds @ replicate (nat (n - int k)) (CHR ''0'')
          else if 0 < n \<and> n \<le> 21 then take (nat n) ds @ ''.'' @ drop (nat n) ds
          else if - 6 < n \<and> n \<le> 0 then ''0.'' @ replicate (nat (- n)) (CHR ''0'') @ ds
          else
            let ex = n - 1;
                es = (if ex < 0 then ''-'' else ''+'') @ showNat (nat \<bar>ex\<bar>)
            in if k = 1 then ds @ ''e'' @ es
               else take 1 ds @ ''.'' @ drop 1 ds @ ''e'' @ es)"

definition jsToString :: "jsnum \<Rightarrow> string" where
  "jsToString v =
     (case v of
        NaN \<Rightarrow> ''NaN''
      | PosInf \<Rightarrow> ''Infinity''
      | NegInf \<Rightarrow> ''-Infinity''
      | Fin x \<Rightarrow> if x = 0 then ''0''
                 else if x < 0 then CHR ''-'' # positiveToString (- x)
                 else positiveToString x)"

subsection \<open>Promises\<close>

text \<open>
  A promise settles once: \<^verbatim>\<open>resolve\<close> and \<^verbatim>\<open>reject\<close> on a settled promise do nothing.
\<close>

datatype 'a promise = Pending | Fulfilled 'a | Rejected string

definition resolve :: "'a \<Rightarrow> 'a promise \<Rightarrow> 'a promise" where
  "resolve v p = (case p of Pending \<Rightarrow> Fulfilled v | _ \<Rightarrow> p)"

definition reject :: "string \<Rightarrow> 'a promise \<Rightarrow> 'a promise" where
  "reject e p = (case p of Pending \<Rightarrow> Rejected e | _ \<Rightarrow> p)"

text \<open>What a spawned process reports: an \<^verbatim>\<open>error\<close> event, or \<^verbatim>\<open>close\<close> with its exit
  code and the text it wrote to stdout and stderr.\<close>

datatype spawn_event = ErrorEvent string | CloseEvent int string string

subsection \<open>Duration probe\<close>

text \<open>
  The regular expression \<^verbatim>\<open>/Duration:\s+(\d{2}):(\d{2}):(\d{2}\.\d+)/\<close>: a match at the
  head of the string, then the leftmost match. The three capture groups are returned.
\<close>

definition matchDurationAt :: "string \<Rightarrow> (string \<times> string \<times> string) option" where
  "matchDurationAt s =
     (if startsWith s ''Duration:'' then
        (let r = drop 9 s; ws = takeWhile isSpace r; r1 = dropWhile isSpace r in
         if ws = [] then None
         else (case r1 of
             h1 # h2 # c1 # m1 # m2 # c2 # s1 # s2 # dot # rest \<Rightarrow>
               if isDigit h1 \<and> isDigit h2 \<and> c1 = CHR '':'' \<and> isDigit m1 \<and> isDigit m2
                  \<and> c2 = CHR '':'' \<and> isDigit s1 \<and> isDigit s2 \<and> dot = CHR ''.''
                  \<and> takeWhile isDigit rest \<noteq> []
               then Some ([h1, h2], [m1, m2], [s1, s2] @ [dot] @ takeWhile isDigit rest)
               else None
           | _ \<Rightarrow> None))
      else None)"

fun matchDuration :: "string \<Rightarrow> (string \<times> string \<times> string) option" where
  "matchDuration [] = matchDurationAt []"
| "matchDuration (c # s) =
     (case matchDurationAt (c # s) of Some m \<Rightarrow> Some m | None \<Rightarrow> matchDuration s)"

text \<open>
  \<^verbatim>\<open>getVideoDuration\<close> of the execution module: ffmpeg is spawned on the file and the
  duration is read from its stderr. The \<^verbatim>\<open>close\<close> handler returns after
  \<^verbatim>\<open>resolve(duration)\<close>; otherwise it goes on to the \<^verbatim>\<open>Invalid data found\<close> test and then
  calls \<^verbatim>\<open>resolve(0)\<close> followed by \<^verbatim>\<open>reject(...)\<close>. The captured groups are digit strings,
  so the three parsed numbers are finite (were one not, the sum is taken as \<open>NaN\<close>) and
  below 100, and no product or sum overflows.
\<close>

definition onClose :: "string \<Rightarrow> real promise \<Rightarrow> real promise" where
  "onClose stderr p =
     (let fallback =
        (if includesStr stderr ''Invalid data found'' then reject ''Invalid video file'' p
         else reject ''Could not parse video duration'' (resolve 0 p))
      in case matchDuration stderr of
           Some (h, m, s) \<Rightarrow>
             (case (parseFloat h, parseFloat m, parseFloat s) of
                (Fin hours, Fin minutes, Fin seconds) \<Rightarrow>
                  resolve (round64 (round64 (round64 (hours * 3600) + round64 (minutes * 60))
                                    + seconds)) p
              | _ \<Rightarrow> fallback)
         | None \<Rightarrow> fallback)"

definition getVideoDuration :: "string option \<Rightarrow> spawn_event \<Rightarrow> real promise" where
  "getVideoDuration ffmpegPath ev =
     (if str_falsy ffmpegPath then reject ''FFmpeg binary not found'' Pending
      else case ev of
             CloseEvent code out stderr \<Rightarrow> onClose stderr Pending
           | ErrorEvent err \<Rightarrow> reject err Pending)"

text \<open>
  \<^verbatim>\<open>getVideoDuration\<close> of the \<^verbatim>\<open>extract-frame\<close> task: ffprobe prints the duration on
  stdout; a non-zero exit code or an unparsable output rejects.
\<close>

definition getVideoDurationTask :: "string option \<Rightarrow> spawn_event \<Rightarrow> jsnum promise" where
  "getVideoDurationTask ffprobePath ev =
     (if str_falsy ffprobePath then reject ''FFprobe binary not found'' Pending
      else case ev of
             CloseEvent code out stderr \<Rightarrow>
               (if code \<noteq> 0
                then reject (''ffprobe exited with code '' @ showInt code @ '': '' @ stderr)
                       Pending
                else (case parseFloat (trim out) of
                        NaN \<Rightarrow> reject (''Invalid duration output from ffprobe: '' @ out) Pending
                      | d \<Rightarrow> resolve d Pending))
           | ErrorEvent err \<Rightarrow> reject err Pending)"

subsection \<open>Seek position of the frame extraction\<close>

text \<open>
  The seek computation of \<^verbatim>\<open>executeExtractFrameNode\<close>, from the timestamp and the probed
  duration (a finite number, see above). A percentage that is \<open>NaN\<close>, below 0 or above 100
  throws; an absolute value that is \<open>NaN\<close> or negative throws, and one above the duration
  is replaced by \<open>duration - 0.1\<close>. The quotient, the product and the difference are
  rounded; none of them overflows.
\<close>

definition seekSeconds :: "string \<Rightarrow> real \<Rightarrow> string + real" where
  "seekSeconds ts duration =
     (if endsWith ts ''%'' then
        (case parseFloat (replaceFirst ts ''%'' []) of
           Fin percent \<Rightarrow>
             if percent < 0 \<or> percent > 100 then Inl (''Invalid percentage timestamp: '' @ ts)
             else Inr (round64 (round64 (percent / 100) * duration))
         | _ \<Rightarrow> Inl (''Invalid percentage timestamp: '' @ ts))
      else
        (case parseFloat (replaceFirst ts ''s'' []) of
           NaN \<Rightarrow> Inl (''Invalid timestamp: '' @ ts)
         | NegInf \<Rightarrow> Inl (''Invalid timestamp: '' @ ts)
         | PosInf \<Rightarrow> Inr (round64 (duration - round64 0.1))
         | Fin seek \<Rightarrow>
             if seek < 0 then Inl (''Invalid timestamp: '' @ ts)
             else if seek > duration then Inr (round64 (duration - round64 0.1))
             else Inr seek))"


subsection \<open>Bounded downloader\<close>

text \<open>
  What \<^verbatim>\<open>fetch\<close> gives: it rejects (network error, or the abort of the 60 s timer), or
  it yields a response. The body is the sequence of results of \<^verbatim>\<open>reader.read()\<close>: a
  chunk of so many bytes, or a rejection (a network error or the abort signal in the middle
  of the transfer); the end of the list is \<^verbatim>\<open>done\<close>. A response without a body has
  \<open>None\<close>.
\<close>

datatype read_event = Chunk nat | ReadFail string

record Response =
  ok :: bool
  status :: nat
  statusText :: string
  contentLength :: "string option"
  body :: "read_event list option"

datatype fetch_result = FetchFail string | FetchOk Response

datatype handle_state = NotOpened | Opened | Closed

text \<open>
  The observable state of one download: the destination write stream (not created, open,
  or ended and finished), the bytes written to it, the running byte count read from the
  source, whether the reader was cancelled and whether the timer was cleared. The write
  stream is taken to accept every write and to finish once ended.
\<close>

record Download =
  fileStream :: handle_state
  written :: nat
  downloaded :: nat
  cancelled :: bool
  timerCleared :: bool

definition newDownload :: Download where
  "newDownload = \<lparr>fileStream = NotOpened, written = 0, downloaded = 0, cancelled = False,
     timerCleared = False\<rparr>"

text \<open>The \<^verbatim>\<open>while (true)\<close> loop of the execution module; \<open>Some e\<close> is the error thrown.\<close>

fun readLoop :: "nat \<Rightarrow> read_event list \<Rightarrow> Download \<Rightarrow> string option \<times> Download" where
  "readLoop maxBytes [] st = (None, st)"
| "readLoop maxBytes (ReadFail e # evs) st = (Some e, st)"
| "readLoop maxBytes (Chunk n # evs) st =
     (let st1 = st\<lparr>downloaded := downloaded st + n\<rparr> in
      if downloaded st1 > maxBytes then (Some ''Video too large'', st1\<lparr>cancelled := True\<rparr>)
      else readLoop maxBytes evs (st1\<lparr>written := written st1 + n\<rparr>))"

text \<open>
  \<^verbatim>\<open>downloadVideo\<close> of the execution module. The write stream is created before the
  reader is asked for; the \<^verbatim>\<open>finally\<close> block clears the timer.
\<close>

definition downloadVideo :: "fetch_result \<Rightarrow> nat \<Rightarrow> (string + unit) \<times> Download" where
  "downloadVideo fr maxBytes =
     (let fin = (\<lambda>st. st\<lparr>timerCleared := True\<rparr>) in
      case fr of
        FetchFail e \<Rightarrow> (Inl e, fin newDownload)
      | FetchOk response \<Rightarrow>
          if \<not> ok response then
            (Inl (''Failed to download: '' @ statusText response), fin newDownload)
          else
            let st = newDownload\<lparr>fileStream := Opened\<rparr> in
            (case body response of
               None \<Rightarrow> (Inl ''No response body'', fin st)
             | Some evs \<Rightarrow>
                 (case readLoop maxBytes evs st of
                    (Some e, st') \<Rightarrow> (Inl e, fin st')
                  | (None, st') \<Rightarrow> (Inr (), fin (st'\<lparr>fileStream := Closed\<rparr>)))))"

text \<open>The loop of the \<^verbatim>\<open>extract-frame\<close> task, which differs in its message only.\<close>

fun readLoopTask :: "nat \<Rightarrow> read_event list \<Rightarrow> Download \<Rightarrow> string option \<times> Download" where
  "readLoopTask maxBytes [] st = (None, st)"
| "readLoopTask maxBytes (ReadFail e # evs) st = (Some e, st)"
| "readLoopTask maxBytes (Chunk n # evs) st =
     (let st1 = st\<lparr>downloaded := downloaded st + n\<rparr> in
      if downloaded st1 > maxBytes then
        (Some (''Download exceeded max size limit of '' @ showNat maxBytes @ '' bytes.''),
         st1\<lparr>cancelled := True\<rparr>)
      else readLoopTask maxBytes evs (st1\<lparr>written := written st1 + n\<rparr>))"

text \<open>
  \<^verbatim>\<open>downloadVideo\<close> of the \<^verbatim>\<open>extract-frame\<close> task: after the status check it compares a
  declared \<^verbatim>\<open>content-length\<close> with the cap, and it creates the write stream only once the
  body is known to exist.
\<close>

definition downloadVideoTask :: "fetch_result \<Rightarrow> nat \<Rightarrow> (string + unit) \<times> Download" where
  "downloadVideoTask fr maxBytes =
     (let fin = (\<lambda>st. st\<lparr>timerCleared := True\<rparr>) in
      case fr of
        FetchFail e \<Rightarrow> (Inl e, fin newDownload)
      | FetchOk response \<Rightarrow>
          if \<not> ok response then
            (Inl (''Failed to download video: '' @ showNat (status response) @ '' ''
                  @ statusText response), fin newDownload)
          else if \<not> str_falsy (contentLength response)
                  \<and> (case parseInt (the (contentLength response)) of
                        None \<Rightarrow> False | Some n \<Rightarrow> n > int maxBytes) then
            (Inl (''Video size ('' @ the (contentLength response) @ '' bytes) exceeds limit of ''
                  @ showNat maxBytes @ '' bytes.''), fin newDownload)
          else
            (case body response of
               None \<Rightarrow> (Inl ''No response body'', fin newDownload)
             | Some evs \<Rightarrow>
                 (case readLoopTask maxBytes evs (newDownload\<lparr>fileStream := Opened\<rparr>) of
                    (Some e, st') \<Rightarrow> (Inl e, fin st')
                  | (None, st') \<Rightarrow> (Inr (), fin (st'\<lparr>fileStream := Closed\<rparr>)))))"

text \<open>The bytes of the chunks read before the first failed read.\<close>

fun bodyBytes :: "read_event list \<Rightarrow> nat" where
  "bodyBytes [] = 0"
| "bodyBytes (ReadFail e # evs) = 0"
| "bodyBytes (Chunk n # evs) = n + bodyBytes evs"

text \<open>100 MB, the cap both callers pass.\<close>

definition MAX_VIDEO_SIZE_BYTES :: nat where
  "MAX_VIDEO_SIZE_BYTES = 100 * 1024 * 1024"

subsection \<open>Crop rectangle\<close>

text \<open>\<^verbatim>\<open>Math.round\<close>: the nearest integer, a half rounded up.\<close>

definition jsRound :: "real \<Rightarrow> int" where
  "jsRound x = \<lfloor>x + 1 / 2\<rfloor>"

text \<open>\<^verbatim>\<open>v || d\<close> on an optional number: \<^verbatim>\<open>undefined\<close> and 0 are falsy.\<close>

definition num_or :: "real option \<Rightarrow> real \<Rightarrow> real" where
  "num_or v d = (case v of None \<Rightarrow> d | Some x \<Rightarrow> if x = 0 then d else x)"

text \<open>The fields \<^verbatim>\<open>left\<close>, \<^verbatim>\<open>top\<close>, \<^verbatim>\<open>width\<close>, \<^verbatim>\<open>height\<close> passed to \<^verbatim>\<open>extract\<close>.\<close>

record CropRegion =
  r_left :: int
  r_top :: int
  r_width :: int
  r_height :: int

text \<open>
  The pixel rectangle from the four percentages and the image size, as both
  \<^verbatim>\<open>executeCropImageNode\<close> and \<^verbatim>\<open>cropImageClient\<close> compute it. Each quotient and each
  product is rounded to binary64 before \<^verbatim>\<open>Math.round\<close>; the integers that follow are taken
  to stay below \<open>2 ^ 53\<close>, where \<^verbatim>\<open>Math.min\<close>, \<^verbatim>\<open>Math.max\<close> and the differences are exact
  (with percentages up to 100 and the sizes of images they do).
\<close>

definition cropRegion :: "int \<Rightarrow> int \<Rightarrow> real \<Rightarrow> real \<Rightarrow> real \<Rightarrow> real \<Rightarrow> CropRegion" where
  "cropRegion imgWidth imgHeight xP yP wP hP =
     (let left0 = jsRound (round64 (round64 (xP / 100) * real_of_int imgWidth));
          top0 = jsRound (round64 (round64 (yP / 100) * real_of_int imgHeight));
          cropWidth0 = jsRound (round64 (round64 (wP / 100) * real_of_int imgWidth));
          cropHeight0 = jsRound (round64 (round64 (hP / 100) * real_of_int imgHeight));
          left = min left0 (max (imgWidth - 1) 0);
          top = min top0 (max (imgHeight - 1) 0);
          cropWidth1 = min cropWidth0 (imgWidth - left);
          cropHeight1 = min cropHeight0 (imgHeight - top);
          cropWidth = max cropWidth1 1;
          cropHeight = max cropHeight1 1
      in \<lparr>r_left = left, r_top = top, r_width = cropWidth, r_height = cropHeight\<rparr>)"

text \<open>
  \<^verbatim>\<open>executeCropImageNode\<close>: the parameters are read from the node with their defaults
  (\<^verbatim>\<open>|| 0\<close>, \<^verbatim>\<open>|| 100\<close>), the image size from the metadata (\<^verbatim>\<open>|| 1024\<close>).
\<close>

definition executeCropRegion :: "WorkflowNode \<Rightarrow> nat option \<Rightarrow> nat option \<Rightarrow> CropRegion" where
  "executeCropRegion node metaWidth metaHeight =
     (let xP = num_or (xPercent (data node)) 0;
          yP = num_or (yPercent (data node)) 0;
          wP = num_or (widthPercent (data node)) 100;
          hP = num_or (heightPercent (data node)) 100;
          imgWidth = (case metaWidth of None \<Rightarrow> 1024 | Some w \<Rightarrow> if w = 0 then 1024 else int w);
          imgHeight = (case metaHeight of None \<Rightarrow> 1024 | Some h \<Rightarrow> if h = 0 then 1024 else int h)
      in cropRegion imgWidth imgHeight xP yP wP hP)"

text \<open>\<^verbatim>\<open>cropImageClient\<close>: the parameters are used as they are given.\<close>

record CropParams =
  p_xPercent :: real
  p_yPercent :: real
  p_widthPercent :: real
  p_heightPercent :: real

definition cropImageClient :: "nat \<Rightarrow> nat \<Rightarrow> CropParams \<Rightarrow> CropRegion" where
  "cropImageClient imgW imgH params =
     cropRegion (int imgW) (int imgH) (p_xPercent params) (p_yPercent params)
       (p_widthPercent params) (p_heightPercent params)"

text \<open>
  The rectangle in the words of the specification: \<open>left = min(round(x% * W), max(W-1, 0))\<close>,
  \<open>top\<close> likewise, \<open>cropWidth = max(min(round(width% * W), W - left), 1)\<close>, \<open>cropHeight\<close>
  likewise.
\<close>

definition specRegion :: "int \<Rightarrow> int \<Rightarrow> real \<Rightarrow> real \<Rightarrow> real \<Rightarrow> real \<Rightarrow> CropRegion" where
  "specRegion W H x y w h =
     \<lparr>r_left = min (jsRound (x / 100 * real_of_int W)) (max (W - 1) 0),
      r_top = min (jsRound (y / 100 * real_of_int H)) (max (H - 1) 0),
      r_width = max (min (jsRound (w / 100 * real_of_int W))
                         (W - min (jsRound (x / 100 * real_of_int W)) (max (W - 1) 0))) 1,
      r_height = max (min (jsRound (h / 100 * real_of_int H))
                          (H - min (jsRound (y / 100 * real_of_int H)) (max (H - 1) 0))) 1\<rparr>"

subsection \<open>Frame extraction executor\<close>

text \<open>Line terminators, which \<^verbatim>\<open>.\<close> of a regular expression does not match.\<close>

definition isLineTerminator :: "char \<Rightarrow> bool" where
  "isLineTerminator c = (c = CHR 0x0A \<or> c = CHR 0x0D)"

text \<open>
  The tail \<^verbatim>\<open>(.+?)\.[a-zA-Z0-9]+$\<close> of the public-id pattern: the shortest non-empty
  group, free of line terminators, that is followed by a dot and by letters and digits up
  to the end of the string. The first argument is the group read so far.
\<close>

fun lazyGroup :: "string \<Rightarrow> string \<Rightarrow> string option" where
  "lazyGroup acc [] = None"
| "lazyGroup acc (c # s) =
     (if acc \<noteq> [] \<and> c = CHR ''.'' \<and> s \<noteq> [] \<and> list_all isAlnum s then Some acc
      else if isLineTerminator c then None
      else lazyGroup (acc @ [c]) s)"

text \<open>The optional version \<^verbatim>\<open>(?:v\d+\/)?\<close>: the rest of the string after it.\<close>

definition stripVersion :: "string \<Rightarrow> string option" where
  "stripVersion s =
     (case s of [] \<Rightarrow> None
      | c # t \<Rightarrow>
          if c = CHR ''v'' then
            (let ds = takeWhile isDigit t; r = dropWhile isDigit t in
             if ds \<noteq> [] \<and> r \<noteq> [] \<and> hd r = CHR ''/'' then Some (tl r) else None)
          else None)"

text \<open>What follows \<^verbatim>\<open>/upload/\<close>: with the version first, without it if that fails.\<close>

definition matchAfterUpload :: "string \<Rightarrow> string option" where
  "matchAfterUpload r =
     (case stripVersion r of
        Some r' \<Rightarrow> (case lazyGroup [] r' of Some g \<Rightarrow> Some g | None \<Rightarrow> lazyGroup [] r)
      | None \<Rightarrow> lazyGroup [] r)"

text \<open>
  \<^verbatim>\<open>videoInput.match(/\/upload\/(?:v\d+\/)?(.+?)\.[a-zA-Z0-9]+$/)\<close>: the capture group
  of the leftmost match.
\<close>

fun matchPublicId :: "string \<Rightarrow> string option" where
  "matchPublicId [] = None"
| "matchPublicId (c # s) =
     (case (if startsWith (c # s) ''/upload/'' then matchAfterUpload (drop 8 (c # s)) else None)
      of Some g \<Rightarrow> Some g | None \<Rightarrow> matchPublicId s)"

text \<open>
  What the executor takes from outside: the URL builder \<^verbatim>\<open>cloudinary.url\<close> of the
  Cloudinary SDK, called with a public id and a \<^verbatim>\<open>start_offset\<close> (the other options are
  constant; \<open>Inl\<close> when it throws), \<^verbatim>\<open>fetch\<close>, the ffmpeg binary and what its two runs
  report, the file system, the upload to Cloudinary and the clock.
\<close>

record ExtractEnv =
  cloudinaryUrl :: "string \<Rightarrow> string \<Rightarrow> string + string"
  fetch :: "string \<Rightarrow> fetch_result"
  ffmpegPath :: "string option"
  probe :: spawn_event
  extractExit :: "real \<Rightarrow> int"
  frameWritten :: bool
  cloudName :: bool
  upload :: "string + string"
  publicWritable :: bool
  now :: nat
  frameBase64 :: string

text \<open>\<^verbatim>\<open>getVideoFrameUrl\<close> of \<^verbatim>\<open>lib/cloudinary\<close>: the timestamp is parsed and rendered, not
  checked.\<close>

definition getVideoFrameUrl :: "ExtractEnv \<Rightarrow> string \<Rightarrow> string \<Rightarrow> string + string" where
  "getVideoFrameUrl env publicId ts =
     (let startOffset =
        (if endsWith ts ''%'' then jsToString (parseFloat ts) @ ''p''
         else jsToString (parseFloat ts))
      in cloudinaryUrl env
           (replaceFirst (replaceFirst publicId ''.mp4'' ''.jpg'') ''.mov'' ''.jpg'')
           startOffset)"

text \<open>What the executor does to the outside, in order.\<close>

datatype action =
  MakeTmpDir | WriteVideoFile | DownloadVideo string | ProbeDuration | ExtractFrame real
  | UploadFrame | WritePublicFile | RemoveTmpDir

text \<open>\<^verbatim>\<open>s.split(',')[1]\<close>: the text between the first comma and the next one.\<close>

definition splitSecond :: "string \<Rightarrow> string option" where
  "splitSecond s =
     (if CHR '','' \<in> set s
      then Some (takeWhile (\<lambda>c. c \<noteq> CHR '','') (tl (dropWhile (\<lambda>c. c \<noteq> CHR '','') s)))
      else None)"

text \<open>The em dash of two messages, in UTF-8.\<close>

definition emDash :: string where
  "emDash = [CHR 0xE2, CHR 0x80, CHR 0x94]"

text \<open>The video is written to the temporary file: \<open>Some e\<close> is the error thrown.\<close>

definition materialise :: "ExtractEnv \<Rightarrow> string \<Rightarrow> string option \<times> action list" where
  "materialise env videoInput =
     (if startsWith videoInput ''data:'' then
        (if str_falsy (splitSecond videoInput) then (Some ''Invalid base64 data URL'', [])
         else (None, [WriteVideoFile]))
      else if startsWith videoInput ''http'' then
        (case fst (downloadVideo (fetch env videoInput) (100 * 1024 * 1024)) of
           Inl e \<Rightarrow> (Some e, [DownloadVideo videoInput])
         | Inr u \<Rightarrow> (None, [DownloadVideo videoInput]))
      else (Some (''Invalid video input '' @ emDash @ '' expected base64 data URL or HTTP URL''),
            []))"

text \<open>\<^verbatim>\<open>extractFrameParams\<close>: \<open>Some e\<close> is the rejection (its message, which carries the exit
  code and stderr, is shortened).\<close>

definition extractFrameParams :: "ExtractEnv \<Rightarrow> real \<Rightarrow> string option" where
  "extractFrameParams env seek =
     (if str_falsy (ffmpegPath env) then Some ''FFmpeg binary not found''
      else if extractExit env seek \<noteq> 0 then Some ''ffmpeg exited with a non-zero code''
      else None)"

text \<open>The frame is stored: on Cloudinary when configured and reachable, else under the
  public folder, else inline.\<close>

definition storeFrame :: "ExtractEnv \<Rightarrow> WorkflowNode \<Rightarrow> string \<times> action list" where
  "storeFrame env node =
     (case (if cloudName env then Some (upload env) else None) of
        Some (Inr url) \<Rightarrow> (url, [UploadFrame])
      | other \<Rightarrow>
          (let acts = (if other = None then [] else [UploadFrame]) in
           if publicWritable env then
             (''/outputs/extract-'' @ ident node @ ''.png?t='' @ showNat (now env),
              acts @ [WritePublicFile])
           else (''data:image/png;base64,'' @ frameBase64 env, acts)))"

text \<open>
  The body of the \<^verbatim>\<open>try\<close> block: download or decode, probe, seek computation,
  extraction, storage. A promise of \<^verbatim>\<open>getVideoDuration\<close> is always settled, so the
  \<open>Pending\<close> case is never taken.
\<close>

definition extractBody ::
    "ExtractEnv \<Rightarrow> WorkflowNode \<Rightarrow> string \<Rightarrow> string \<Rightarrow> (string + string) \<times> action list" where
  "extractBody env node videoInput ts =
     (case materialise env videoInput of
        (Some e, a1) \<Rightarrow> (Inl e, MakeTmpDir # a1)
      | (None, a1) \<Rightarrow>
          (let a2 = MakeTmpDir # a1 @ [ProbeDuration] in
           case getVideoDuration (ffmpegPath env) (probe env) of
             Pending \<Rightarrow> (Inl [], a2)
           | Rejected e \<Rightarrow> (Inl e, a2)
           | Fulfilled duration \<Rightarrow>
               (case seekSeconds ts duration of
                  Inl e \<Rightarrow> (Inl e, a2)
                | Inr seek \<Rightarrow>
                    (let a3 = a2 @ [ExtractFrame seek] in
                     case extractFrameParams env seek of
                       Some e \<Rightarrow> (Inl e, a3)
                     | None \<Rightarrow>
                         if \<not> frameWritten env then
                           (Inl (''Frame extraction failed '' @ emDash
                                 @ '' no output file produced''), a3)
                         else (case storeFrame env node of
                                 (out, a4) \<Rightarrow> (Inr out, a3 @ a4))))))"

text \<open>The Cloudinary shortcut: the frame URL, or \<open>None\<close> when the code goes on to ffmpeg.\<close>

definition cloudinaryShortcut :: "ExtractEnv \<Rightarrow> string \<Rightarrow> string \<Rightarrow> string option" where
  "cloudinaryShortcut env videoInput ts =
     (if includesStr videoInput ''cloudinary.com'' then
        (case matchPublicId videoInput of
           Some publicId \<Rightarrow>
             (case getVideoFrameUrl env publicId ts of
                Inr frameUrl \<Rightarrow> Some frameUrl
              | Inl e \<Rightarrow> None)
         | None \<Rightarrow> None)
      else None)"

text \<open>\<^verbatim>\<open>executeExtractFrameNode\<close>: the result and what was done to the outside; the
  \<^verbatim>\<open>finally\<close> block removes the temporary directory.\<close>

definition executeExtractFrameNode ::
    "ExtractEnv \<Rightarrow> WorkflowNode \<Rightarrow> Upstream list \<Rightarrow> (string + string) \<times> action list" where
  "executeExtractFrameNode env node upstreamData =
     (let videoInput = (case upstreamData of [] \<Rightarrow> None | u # us \<Rightarrow> up_output u) in
      if str_falsy videoInput then (Inl ''No video input connected'', [])
      else
        let ts = str_or (timestamp (data node)) ''50%'' in
        case cloudinaryShortcut env (the videoInput) ts of
          Some frameUrl \<Rightarrow> (Inr frameUrl, [])
        | None \<Rightarrow>
            (case extractBody env node (the videoInput) ts of
               (res, acts) \<Rightarrow> (res, acts @ [RemoveTmpDir])))"

text \<open>
  An environment for the examples: Cloudinary is not configured and its URL builder
  throws, the download and ffmpeg succeed, the clip lasts 10 s.
\<close>

definition exampleEnv :: ExtractEnv where
  "exampleEnv =
     \<lparr>cloudinaryUrl = (\<lambda>publicId startOffset. Inl ''Must supply cloud_name''),
      fetch = (\<lambda>url. FetchOk \<lparr>ok = True, status = 200, statusText = ''OK'',
         contentLength = None, body = Some [Chunk 4096]\<rparr>),
      ffmpegPath = Some ''/usr/bin/ffmpeg'',
      probe = CloseEvent 1 [] ''  Duration: 00:00:10.00, start: 0.000000'',
      extractExit = (\<lambda>seek. 0),
      frameWritten = True,
      cloudName = False,
      upload = Inl ''not configured'',
      publicWritable = True,
      now = 0,
      frameBase64 = ''AAAA''\<rparr>"

definition frameNode :: "string \<Rightarrow> WorkflowNode" where
  "frameNode ts = \<lparr>ident = ''f1'', ntype = ''extractFrameNode'',
     data = emptyData\<lparr>timestamp := Some ts\<rparr>\<rparr>"


definition cloudinaryVideo :: "Upstream list" where
  "cloudinaryVideo = [\<lparr>up_nodeId = ''v1'', up_output =
     Some ''https://res.cloudinary.com/demo/video/upload/v1700000000/weavy/clip.mp4''\<rparr>]"

subsection \<open>Passthrough executors\<close>

definition executeTextNode :: "WorkflowNode \<Rightarrow> Upstream list \<Rightarrow> string + string" where
  "executeTextNode node upstreamData = Inr (str_or (userMessage (data node)) [])"

definition executeImageUploadNode :: "WorkflowNode \<Rightarrow> string + string" where
  "executeImageUploadNode node =
     (if str_falsy (imageUrl (data node)) then Inl ''No image uploaded''
      else Inr (the (imageUrl (data node))))"

definition executeVideoUploadNode :: "WorkflowNode \<Rightarrow> string + string" where
  "executeVideoUploadNode node =
     (if str_falsy (videoUrl (data node)) then Inl ''No video uploaded''
      else Inr (the (videoUrl (data node))))"

subsection \<open>DAG helpers\<close>

text \<open>
  A \<^verbatim>\<open>Set\<close> keeps its elements in insertion order without duplicates: the list of its
  elements. \<^verbatim>\<open>new Set(xs)\<close> adds the elements of \<open>xs\<close> one by one.
\<close>

definition setAdd :: "'a \<Rightarrow> 'a list \<Rightarrow> 'a list" where
  "setAdd x s = (if x \<in> set s then s else s @ [x])"

definition newSet :: "'a list \<Rightarrow> 'a list" where
  "newSet xs = foldl (\<lambda>s x. setAdd x s) [] xs"

text \<open>
  The functions of \<^verbatim>\<open>dag.ts\<close> take any objects with an \<^verbatim>\<open>id\<close>, and with \<^verbatim>\<open>source\<close> and
  \<^verbatim>\<open>target\<close>; they are called with the workflow's nodes and edges.
\<close>

type_synonym adjacency = "(string, string list) fmap"

text \<open>\<^verbatim>\<open>adjacencyList.get(id) || []\<close>.\<close>

definition neighborsOf :: "adjacency \<Rightarrow> string \<Rightarrow> string list" where
  "neighborsOf adj nodeId = (case fmlookup adj nodeId of None \<Rightarrow> [] | Some l \<Rightarrow> l)"

text \<open>\<^verbatim>\<open>adjacencyList.get(s)!.push(t)\<close>, which both callers guard by \<^verbatim>\<open>nodeIds.has(s)\<close>, so
  that the key is present.\<close>

definition pushEdge :: "adjacency \<Rightarrow> string \<Rightarrow> string \<Rightarrow> adjacency" where
  "pushEdge adj s t = (case fmlookup adj s of None \<Rightarrow> adj | Some l \<Rightarrow> fmupd s (l @ [t]) adj)"

definition emptyAdjacency :: "string list \<Rightarrow> adjacency" where
  "emptyAdjacency nodeIds = fold (\<lambda>i m. fmupd i [] m) nodeIds fmempty"

record ValidationResult =
  valid :: bool
  error :: "string option"

text \<open>The edge loop of \<^verbatim>\<open>validateDAG\<close>: \<open>None\<close> when an edge names an unknown node.\<close>

fun addEdges :: "string list \<Rightarrow> WorkflowEdge list \<Rightarrow> adjacency \<Rightarrow> adjacency option" where
  "addEdges nodeIds [] adj = Some adj"
| "addEdges nodeIds (e # es) adj =
     (if source e \<notin> set nodeIds \<or> target e \<notin> set nodeIds then None
      else addEdges nodeIds es (pushEdge adj (source e) (target e)))"

text \<open>
  The closure \<^verbatim>\<open>hasCycle\<close> with the two sets it updates, \<^verbatim>\<open>visited\<close> and
  \<^verbatim>\<open>recursionStack\<close>, passed in and returned; \<open>forNeighbors\<close> is its \<^verbatim>\<open>for\<close> loop. On
  \<^verbatim>\<open>return true\<close> the sets are left as they are.
\<close>

function hasCycle ::
    "adjacency \<Rightarrow> string \<Rightarrow> string set \<times> string set \<Rightarrow> bool \<times> string set \<times> string set"
  and forNeighbors ::
    "adjacency \<Rightarrow> string list \<Rightarrow> string set \<times> string set \<Rightarrow> bool \<times> string set \<times> string set"
where
  "hasCycle adj nodeId (visited, recursionStack) =
     (case forNeighbors adj (neighborsOf adj nodeId)
             (insert nodeId visited, insert nodeId recursionStack) of
        (True, st) \<Rightarrow> (True, st)
      | (False, (visited', recursionStack')) \<Rightarrow>
          (False, (visited', recursionStack' - {nodeId})))"
| "forNeighbors adj [] st = (False, st)"
| "forNeighbors adj (neighbor # rest) (visited, recursionStack) =
     (if neighbor \<notin> visited then
        (case hasCycle adj neighbor (visited, recursionStack) of
           (True, st) \<Rightarrow> (True, st)
         | (False, st) \<Rightarrow> forNeighbors adj rest st)
      else if neighbor \<in> recursionStack then (True, (visited, recursionStack))
      else forNeighbors adj rest (visited, recursionStack))"
  by pat_completeness auto

termination
proof -
  have mono:
    "hasCycle_forNeighbors_dom (Inl (adj, n, st)) \<Longrightarrow> fst st \<subseteq> fst (snd (hasCycle adj n st))"
    "hasCycle_forNeighbors_dom (Inr (adj, l, st)) \<Longrightarrow> fst st \<subseteq> fst (snd (forNeighbors adj l st))"
    for adj n l st
  proof (induction adj n st and adj l st rule: hasCycle_forNeighbors.pinduct)
    case (1 adj nodeId visited recursionStack)
    then show ?case
      by (auto simp: hasCycle.psimps split: prod.splits bool.splits)
  next
    case (2 adj st)
    then show ?case by (simp add: forNeighbors.psimps)
  next
    case (3 adj neighbor rest visited recursionStack)
    show ?case
    proof (cases "neighbor \<in> visited")
      case True
      with 3 show ?thesis by (auto simp: forNeighbors.psimps)
    next
      case False
      obtain b st' where r: "hasCycle adj neighbor (visited, recursionStack) = (b, st')"
        by (cases "hasCycle adj neighbor (visited, recursionStack)") auto
      have m: "visited \<subseteq> fst st'"
        using 3(2) [OF False] r by simp
      show ?thesis
      proof (cases b)
        case True
        with 3(1) False r m show ?thesis by (simp add: forNeighbors.psimps)
      next
        case b: False
        have "fst st' \<subseteq> fst (snd (forNeighbors adj rest st'))"
          using 3(3) [OF False r [symmetric]] b by simp
        with 3(1) False r m b show ?thesis by (auto simp: forNeighbors.psimps)
      qed
    qed
  qed
  show ?thesis
  proof (relation "inv_image (less_than <*lex*> less_than <*lex*> less_than)
      (\<lambda>x. case x of
          Inl (adj, n, (v, s)) \<Rightarrow>
            if n \<in> fmdom' adj then (card (fmdom' adj - insert n v), 1::nat, 0::nat)
            else (card (fmdom' adj - v), 0, 1)
        | Inr (adj, l, (v, s)) \<Rightarrow> (card (fmdom' adj - v), 0, 2 * length l))", goal_cases)
    case 1
    show ?case by (intro wf_inv_image wf_lex_prod wf_less_than)
  next
    case (2 adj nodeId visited recursionStack)
    show ?case
      by (auto simp: neighborsOf_def fmdom'_notI insert_absorb)
  next
    case (3 adj neighbor rest visited recursionStack)
    show ?case
    proof (cases "neighbor \<in> fmdom' adj")
      case True
      with 3 have "fmdom' adj - insert neighbor visited \<subset> fmdom' adj - visited" by auto
      then have "card (fmdom' adj - insert neighbor visited) < card (fmdom' adj - visited)"
        by (intro psubset_card_mono) auto
      with True show ?thesis by simp
    next
      case False
      then show ?thesis by simp
    qed
  next
    case (4 adj neighbor rest visited recursionStack x st)
    then have "visited \<subseteq> fst st"
      using mono(1) [of adj neighbor "(visited, recursionStack)"]
      by (cases "hasCycle adj neighbor (visited, recursionStack)") auto
    then have "card (fmdom' adj - fst st) \<le> card (fmdom' adj - visited)"
      by (intro card_mono) auto
    then show ?case by (cases st) auto
  next
    case (5 adj neighbor rest visited recursionStack)
    show ?case by simp
  qed
qed

declare hasCycle.simps [simp del]

text \<open>The loop over \<^verbatim>\<open>nodeIds\<close> at the end of \<^verbatim>\<open>validateDAG\<close>: whether a cycle was found.\<close>

fun forNodes :: "adjacency \<Rightarrow> string list \<Rightarrow> string set \<times> string set \<Rightarrow> bool" where
  "forNodes adj [] st = False"
| "forNodes adj (nodeId # rest) (visited, recursionStack) =
     (if nodeId \<notin> visited then
        (case hasCycle adj nodeId (visited, recursionStack) of
           (True, st) \<Rightarrow> True
         | (False, st) \<Rightarrow> forNodes adj rest st)
      else forNodes adj rest (visited, recursionStack))"

definition validateDAG :: "WorkflowNode list \<Rightarrow> WorkflowEdge list \<Rightarrow> ValidationResult" where
  "validateDAG nodes edges =
     (let nodeIds = newSet (map ident nodes) in
      case addEdges nodeIds edges (emptyAdjacency nodeIds) of
        None \<Rightarrow> \<lparr>valid = False, error = Some ''Edge references non-existent node''\<rparr>
      | Some adjacencyList \<Rightarrow>
          if forNodes adjacencyList nodeIds ({}, {})
          then \<lparr>valid = False, error = Some ''Workflow contains a cycle''\<rparr>
          else \<lparr>valid = True, error = None\<rparr>)"


text \<open>The edge relation an adjacency list stands for, and the edge relation of a workflow.\<close>

definition edgesOf :: "adjacency \<Rightarrow> (string \<times> string) set" where
  "edgesOf adj = {(a, b). b \<in> set (neighborsOf adj a)}"

definition edgeRel :: "WorkflowEdge list \<Rightarrow> (string \<times> string) set" where
  "edgeRel edges = {(source e, target e) | e. e \<in> set edges}"

text \<open>
  The invariant of the search: the recursion stack is visited; the finished nodes (visited
  and off the stack) are closed under the edges and lie on no cycle.
\<close>

definition dfsInv :: "adjacency \<Rightarrow> string set \<times> string set \<Rightarrow> bool" where
  "dfsInv adj st =
     (snd st \<subseteq> fst st
      \<and> (\<forall>b \<in> fst st - snd st. \<forall>c. (b, c) \<in> edgesOf adj \<longrightarrow> c \<in> fst st - snd st)
      \<and> (\<forall>b \<in> fst st - snd st. (b, b) \<notin> (edgesOf adj)\<^sup>+))"


subsection \<open>Wave scheduler\<close>

type_synonym inDegrees = "(string, int) fmap"

definition zeroDegrees :: "string list \<Rightarrow> inDegrees" where
  "zeroDegrees nodeIds = fold (\<lambda>i m. fmupd i 0 m) nodeIds fmempty"

text \<open>\<^verbatim>\<open>inDegree.get(id) || 0\<close>.\<close>

definition getOr0 :: "inDegrees \<Rightarrow> string \<Rightarrow> int" where
  "getOr0 inDegree k = (case fmlookup inDegree k of None \<Rightarrow> 0 | Some n \<Rightarrow> n)"

text \<open>The edge loop of \<^verbatim>\<open>getParallelGroups\<close>: edges with an unknown end are skipped.\<close>

fun buildGraph ::
    "string list \<Rightarrow> WorkflowEdge list \<Rightarrow> adjacency \<times> inDegrees \<Rightarrow> adjacency \<times> inDegrees" where
  "buildGraph nodeIds [] g = g"
| "buildGraph nodeIds (e # es) (adj, inDegree) =
     (if source e \<in> set nodeIds \<and> target e \<in> set nodeIds then
        buildGraph nodeIds es
          (pushEdge adj (source e) (target e),
           fmupd (target e) (getOr0 inDegree (target e) + 1) inDegree)
      else buildGraph nodeIds es (adj, inDegree))"

text \<open>
  \<^verbatim>\<open>inDegree.set(neighbor, inDegree.get(neighbor)! - 1)\<close>. The neighbor is a remaining
  node, which has an entry. Without one JavaScript would store \<open>NaN\<close>; the only reading of
  the map afterwards, \<^verbatim>\<open>=== 0\<close>, is false for \<open>NaN\<close> as for a missing entry, so the map is
  left alone then.
\<close>

definition decrement :: "inDegrees \<Rightarrow> string \<Rightarrow> inDegrees" where
  "decrement inDegree k =
     (case fmlookup inDegree k of None \<Rightarrow> inDegree | Some n \<Rightarrow> fmupd k (n - 1) inDegree)"

text \<open>One round of the removal loop: the node leaves \<^verbatim>\<open>remaining\<close> and the in-degree of
  each of its neighbors that remains is decremented.\<close>

definition removeNode ::
    "adjacency \<Rightarrow> string \<Rightarrow> string list \<times> inDegrees \<Rightarrow> string list \<times> inDegrees" where
  "removeNode adj nodeId st =
     (let remaining = removeAll nodeId (fst st) in
      (remaining,
       fold (\<lambda>neighbor d. if neighbor \<in> set remaining then decrement d neighbor else d)
         (neighborsOf adj nodeId) (snd st)))"

text \<open>The \<^verbatim>\<open>while (remaining.size > 0)\<close> loop; it stops when no remaining node has
  in-degree 0.\<close>

function waves ::
    "adjacency \<Rightarrow> string list \<Rightarrow> inDegrees \<Rightarrow> string list list \<Rightarrow> string list list" where
  "waves adj remaining inDegree groups =
     (if remaining = [] then groups
      else
        let currentGroup = filter (\<lambda>nodeId. fmlookup inDegree nodeId = Some 0) remaining in
        if currentGroup = [] then groups
        else (case fold (removeNode adj) currentGroup (remaining, inDegree) of
                (remaining', inDegree') \<Rightarrow>
                  waves adj remaining' inDegree' (groups @ [currentGroup])))"
  by pat_completeness auto
termination
proof -
  have rem: "fst (fold (removeNode adj) g st) = filter (\<lambda>x. x \<notin> set g) (fst st)"
    for adj g and st :: "string list \<times> inDegrees"
  proof (induction g arbitrary: st)
    case Nil
    show ?case by simp
  next
    case (Cons u g)
    show ?case
      by (simp add: Cons.IH) (auto simp: removeNode_def removeAll_filter_not_eq intro: filter_cong)
  qed
  show ?thesis
  proof (relation "measure (\<lambda>(adj, remaining, inDegree, groups). length remaining)", goal_cases)
    case 1
    show ?case by simp
  next
    case (2 adj remaining inDegree groups currentGroup remaining' inDegree')
    have r: "remaining' = filter (\<lambda>x. x \<notin> set currentGroup) remaining"
      using rem [of adj currentGroup "(remaining, inDegree)"] 2 by (metis fst_conv)
    from 2 obtain y where y0: "y \<in> set remaining" "fmlookup inDegree y = Some 0"
      by (auto simp: filter_empty_conv)
    with 2 have y: "y \<in> set currentGroup" "y \<in> set remaining"
      by simp_all
    have "length (filter (\<lambda>x. x \<notin> set currentGroup) remaining) < length remaining"
      by (rule length_filter_less [OF y(2)]) (simp add: y(1))
    with r show ?case by simp
  qed
qed

declare waves.simps [simp del]

definition getParallelGroups :: "WorkflowNode list \<Rightarrow> WorkflowEdge list \<Rightarrow> string list list" where
  "getParallelGroups nodes edges =
     (let nodeIds = newSet (map ident nodes) in
      case buildGraph nodeIds edges (emptyAdjacency nodeIds, zeroDegrees nodeIds) of
        (adjacencyList, inDegree) \<Rightarrow> waves adjacencyList nodeIds inDegree [])"

text \<open>The edges into a node from the nodes of a list, counted with their multiplicity.\<close>

definition incoming :: "adjacency \<Rightarrow> string list \<Rightarrow> string \<Rightarrow> nat" where
  "incoming adj R v = sum_list (map (\<lambda>u. count_list (neighborsOf adj u) v) R)"

text \<open>The invariant of the loop: the in-degree stored for a remaining node counts the
  edges into it from the remaining nodes.\<close>

definition wavesInv :: "adjacency \<Rightarrow> string list \<Rightarrow> inDegrees \<Rightarrow> bool" where
  "wavesInv adj remaining inDegree =
     (distinct remaining
      \<and> (\<forall>v \<in> set remaining. fmlookup inDegree v = Some (int (incoming adj remaining v))))"

text \<open>Every predecessor of a node of a group lies in an earlier group.\<close>

definition ordered :: "adjacency \<Rightarrow> string list list \<Rightarrow> bool" where
  "ordered adj groups =
     (\<forall>k < length groups. \<forall>v \<in> set (groups ! k). \<forall>u.
        (u, v) \<in> edgesOf adj \<longrightarrow> u \<in> set (concat (take k groups)))"

text \<open>The edges of a workflow whose two ends are nodes of the workflow.\<close>

definition knownEdges :: "WorkflowNode list \<Rightarrow> WorkflowEdge list \<Rightarrow> WorkflowEdge list" where
  "knownEdges nodes edges =
     filter (\<lambda>e. source e \<in> ident ` set nodes \<and> target e \<in> ident ` set nodes) edges"

text \<open>Nodes and edges for the examples.\<close>

definition exNode :: "string \<Rightarrow> WorkflowNode" where
  "exNode i = \<lparr>ident = i, ntype = ''textNode'', data = emptyData\<rparr>"

definition exEdge :: "string \<Rightarrow> string \<Rightarrow> WorkflowEdge" where
  "exEdge a b = \<lparr>source = a, target = b\<rparr>"

definition diamondNodes :: "WorkflowNode list" where
  "diamondNodes = [exNode ''A'', exNode ''B'', exNode ''C'', exNode ''D'']"

definition diamondEdges :: "WorkflowEdge list" where
  "diamondEdges = [exEdge ''A'' ''B'', exEdge ''A'' ''C'', exEdge ''B'' ''D'', exEdge ''C'' ''D'']"


subsection \<open>Execution engine\<close>

datatype NodeStatus = PENDING | RUNNING | SUCCESS | FAILED | SKIPPED

datatype RunStatus = RUN_RUNNING | RUN_COMPLETED | RUN_FAILED

text \<open>A row of the node log of one run (the time stamps are left out).\<close>

record NodeLog =
  log_status :: NodeStatus
  log_output :: "string option"
  log_error :: "string option"
  log_duration :: "nat option"

text \<open>The row the \<^verbatim>\<open>POST\<close> handler creates for every node to execute.\<close>

definition pendingLog :: NodeLog where
  "pendingLog = \<lparr>log_status = PENDING, log_output = None, log_error = None,
     log_duration = None\<rparr>"

definition sanitizeOutput :: "string \<Rightarrow> string" where
  "sanitizeOutput out =
     (if length out > 1000
      then take 100 out @ ''... [TRUNCATED '' @ showNat (length out - 100) @ '' chars]''
      else out)"

text \<open>
  \<^verbatim>\<open>updateNodeLog\<close>: \<^verbatim>\<open>updateMany\<close> on the rows of the node; a field passed as
  \<^verbatim>\<open>undefined\<close> is left as it is, and a node without a row changes nothing.
\<close>

definition updateNodeLog ::
    "(string \<rightharpoonup> NodeLog) \<Rightarrow> string \<Rightarrow> NodeStatus \<Rightarrow> string option \<Rightarrow> string option
      \<Rightarrow> nat option \<Rightarrow> (string \<rightharpoonup> NodeLog)" where
  "updateNodeLog logs nodeId st out err dur =
     (case logs nodeId of
        None \<Rightarrow> logs
      | Some l \<Rightarrow>
          logs(nodeId \<mapsto> l\<lparr>log_status := st,
            log_output := (case out of None \<Rightarrow> log_output l | Some v \<Rightarrow> Some (sanitizeOutput v)),
            log_error := (case err of None \<Rightarrow> log_error l | Some e \<Rightarrow> Some e),
            log_duration := (case dur of None \<Rightarrow> log_duration l | Some d \<Rightarrow> Some d)\<rparr>))"

text \<open>What an executor throws: an \<^verbatim>\<open>Error\<close> with its message, or something else.\<close>

datatype thrown = Error string | Other

definition errorMessage :: "thrown \<Rightarrow> string" where
  "errorMessage t = (case t of Error m \<Rightarrow> m | Other \<Rightarrow> ''Execution failed'')"

text \<open>
  The task the engine starts for one node of a group: it returned at once because the id
  names no node, it waits for the \<open>RUNNING\<close> write, its executor runs, or it has settled:
  it has resolved, or it has rejected with what the executor threw.
\<close>

datatype phase = Absent | Dispatched | Executing | Returned | Threw thrown

text \<open>
  The \<^verbatim>\<open>for\<close> loop of \<^verbatim>\<open>executeWorkflowNodes\<close>: at its head, waiting for the
  \<^verbatim>\<open>Promise.all\<close> of the current group, or left (after the last group, or through the
  \<^verbatim>\<open>catch\<close> block).
\<close>

datatype control = Looping | Awaiting | Done

record Engine =
  logs :: "string \<rightharpoonup> NodeLog"
  outputs :: "string \<rightharpoonup> string"
  runStatus :: RunStatus
  control :: control
  groupIndex :: nat
  taskIds :: "string list"
  tasks :: "phase list"

text \<open>The state in which the \<^verbatim>\<open>POST\<close> handler calls \<^verbatim>\<open>executeWorkflowNodes\<close>: the run
  is \<open>RUNNING\<close>, every node has a \<open>PENDING\<close> row.\<close>

definition initEngine :: "WorkflowNode list \<Rightarrow> Engine" where
  "initEngine nodes =
     \<lparr>logs = (\<lambda>i. if i \<in> ident ` set nodes then Some pendingLog else None),
      outputs = Map.empty, runStatus = RUN_RUNNING, control = Looping, groupIndex = 0,
      taskIds = [], tasks = []\<rparr>"

definition settledOk :: "phase \<Rightarrow> bool" where
  "settledOk p = (p = Returned \<or> p = Absent)"

definition isRejected :: "phase \<Rightarrow> bool" where
  "isRejected p = (case p of Threw t \<Rightarrow> True | _ \<Rightarrow> False)"

text \<open>
  One step of a run. The tasks of a group are started together and proceed in any order;
  an executor may return any output or throw anything, after any time. \<^verbatim>\<open>Promise.all\<close>
  lets the loop go on once every task has resolved, and rejects as soon as one task has
  rejected: the \<^verbatim>\<open>catch\<close> block then marks the run \<open>FAILED\<close> while the other tasks of
  the group still run to their end. The writes to the database succeed.
\<close>

inductive step :: "WorkflowNode list \<Rightarrow> string list list \<Rightarrow> Engine \<Rightarrow> Engine \<Rightarrow> bool"
  for nodes :: "WorkflowNode list" and parallelGroups :: "string list list" where
  dispatch:
    "control s = Looping \<Longrightarrow> groupIndex s < length parallelGroups \<Longrightarrow>
     step nodes parallelGroups s
       (s\<lparr>control := Awaiting, taskIds := parallelGroups ! groupIndex s,
          tasks := map (\<lambda>nodeId. if nodeId \<in> ident ` set nodes then Dispatched else Absent)
                     (parallelGroups ! groupIndex s)\<rparr>)"
| complete:
    "control s = Looping \<Longrightarrow> \<not> groupIndex s < length parallelGroups \<Longrightarrow>
     step nodes parallelGroups s (s\<lparr>runStatus := RUN_COMPLETED, control := Done\<rparr>)"
| running:
    "i < length (tasks s) \<Longrightarrow> tasks s ! i = Dispatched \<Longrightarrow>
     step nodes parallelGroups s
       (s\<lparr>logs := updateNodeLog (logs s) (taskIds s ! i) RUNNING None None None,
          tasks := (tasks s)[i := Executing]\<rparr>)"
| success:
    "i < length (tasks s) \<Longrightarrow> tasks s ! i = Executing \<Longrightarrow>
     step nodes parallelGroups s
       (s\<lparr>outputs := (outputs s)(taskIds s ! i \<mapsto> out),
          logs := updateNodeLog (logs s) (taskIds s ! i) SUCCESS (Some out) None (Some d),
          tasks := (tasks s)[i := Returned]\<rparr>)"
| failure:
    "i < length (tasks s) \<Longrightarrow> tasks s ! i = Executing \<Longrightarrow>
     step nodes parallelGroups s
       (s\<lparr>logs := updateNodeLog (logs s) (taskIds s ! i) FAILED None
                   (Some (errorMessage t)) (Some d),
          tasks := (tasks s)[i := Threw t]\<rparr>)"
| next_group:
    "control s = Awaiting \<Longrightarrow> \<forall>p \<in> set (tasks s). settledOk p \<Longrightarrow>
     step nodes parallelGroups s
       (s\<lparr>control := Looping, groupIndex := Suc (groupIndex s), taskIds := [], tasks := []\<rparr>)"
| abort:
    "control s = Awaiting \<Longrightarrow> \<exists>p \<in> set (tasks s). isRejected p \<Longrightarrow>
     step nodes parallelGroups s (s\<lparr>runStatus := RUN_FAILED, control := Done\<rparr>)"

text \<open>The states of the runs of a workflow with given groups.\<close>

inductive reachable :: "WorkflowNode list \<Rightarrow> string list list \<Rightarrow> Engine \<Rightarrow> bool"
  for nodes :: "WorkflowNode list" and parallelGroups :: "string list list" where
  start: "reachable nodes parallelGroups (initEngine nodes)"
| after: "reachable nodes parallelGroups s \<Longrightarrow> step nodes parallelGroups s s' \<Longrightarrow>
          reachable nodes parallelGroups s'"

text \<open>What the row of a node shows for the phase of its task.\<close>

definition shows_phase :: "NodeLog \<Rightarrow> phase \<Rightarrow> bool" where
  "shows_phase l p =
     (case p of
        Absent \<Rightarrow> True
      | Dispatched \<Rightarrow> l = pendingLog
      | Executing \<Rightarrow> l = pendingLog\<lparr>log_status := RUNNING\<rparr>
      | Returned \<Rightarrow> log_status l = SUCCESS \<and> log_output l \<noteq> None \<and> log_error l = None
          \<and> log_duration l \<noteq> None
      | Threw t \<Rightarrow> log_status l = FAILED \<and> log_output l = None
          \<and> log_error l = Some (errorMessage t) \<and> log_duration l \<noteq> None)"

















section \<open>Passthrough nodes\<close>

text \<open>
  C8, as stated: every passthrough node (text, image source, video source) fails with a
  missing-input error when its configured value is absent. The text node does not: with no
  \<^verbatim>\<open>userMessage\<close> it succeeds with the empty string.
\<close>

theorem C8_text_absent_succeeds:
  "executeTextNode \<lparr>ident = ''t1'', ntype = ''textNode'', data = emptyData\<rparr> [] = Inr []
   \<and> \<not> isl (executeTextNode \<lparr>ident = ''t1'', ntype = ''textNode'', data = emptyData\<rparr> [])"
  by (simp add: executeTextNode_def emptyData_def str_or_def)

text \<open>
  C8, amended: the image-source and video-source executors return the configured URL and
  fail (\<open>No image uploaded\<close>, \<open>No video uploaded\<close>) when it is absent or empty; the text
  executor returns the configured message and, when the message is absent, succeeds with
  the empty string.
\<close>

theorem C8_passthrough:
  "(imageUrl (data n) = Some u \<and> u \<noteq> [] \<longrightarrow> executeImageUploadNode n = Inr u)
   \<and> (imageUrl (data n) = None \<or> imageUrl (data n) = Some [] \<longrightarrow>
        executeImageUploadNode n = Inl ''No image uploaded'')
   \<and> (videoUrl (data n) = Some u \<and> u \<noteq> [] \<longrightarrow> executeVideoUploadNode n = Inr u)
   \<and> (videoUrl (data n) = None \<or> videoUrl (data n) = Some [] \<longrightarrow>
        executeVideoUploadNode n = Inl ''No video uploaded'')
   \<and> (userMessage (data n) = Some m \<longrightarrow> executeTextNode n ups = Inr m)
   \<and> (userMessage (data n) = None \<longrightarrow> executeTextNode n ups = Inr [])"
  by (auto simp: executeImageUploadNode_def executeVideoUploadNode_def executeTextNode_def
        str_falsy_def str_or_def)

theorem C8_passthrough_witness:
  "executeImageUploadNode \<lparr>ident = ''i1'', ntype = ''imageUploadNode'',
       data = emptyData\<lparr>imageUrl := Some ''https://x/a.png''\<rparr>\<rparr> = Inr ''https://x/a.png''
   \<and> executeImageUploadNode \<lparr>ident = ''i1'', ntype = ''imageUploadNode'', data = emptyData\<rparr>
       = Inl ''No image uploaded''
   \<and> executeVideoUploadNode \<lparr>ident = ''v1'', ntype = ''videoUploadNode'',
       data = emptyData\<lparr>videoUrl := Some ''https://x/a.mp4''\<rparr>\<rparr> = Inr ''https://x/a.mp4''
   \<and> executeVideoUploadNode \<lparr>ident = ''v1'', ntype = ''videoUploadNode'', data = emptyData\<rparr>
       = Inl ''No video uploaded''
   \<and> executeTextNode \<lparr>ident = ''t1'', ntype = ''textNode'',
       data = emptyData\<lparr>userMessage := Some ''hi''\<rparr>\<rparr> [] = Inr ''hi''"
  using
    C8_passthrough [of "\<lparr>ident = ''i1'', ntype = ''imageUploadNode'',
       data = emptyData\<lparr>imageUrl := Some ''https://x/a.png''\<rparr>\<rparr>" "''https://x/a.png''"]
    C8_passthrough [of "\<lparr>ident = ''i1'', ntype = ''imageUploadNode'', data = emptyData\<rparr>"]
    C8_passthrough [of "\<lparr>ident = ''v1'', ntype = ''videoUploadNode'',
       data = emptyData\<lparr>videoUrl := Some ''https://x/a.mp4''\<rparr>\<rparr>" "''https://x/a.mp4''"]
    C8_passthrough [of "\<lparr>ident = ''v1'', ntype = ''videoUploadNode'', data = emptyData\<rparr>"]
    C8_passthrough [of "\<lparr>ident = ''t1'', ntype = ''textNode'',
       data = emptyData\<lparr>userMessage := Some ''hi''\<rparr>\<rparr>" _ "''hi''" "[]"]
  by (simp add: emptyData_def)

section \<open>Binary64 arithmetic\<close>

text \<open>The exponent search finds the exponent.\<close>

lemma halvings_spec:
  "1 \<le> a \<Longrightarrow> 2 ^ halvings n a \<le> a \<and> (a < 2 ^ Suc (halvings n a) \<or> halvings n a = n)
     \<and> halvings n a \<le> n"
proof (induction n arbitrary: a)
  case 0
  then show ?case by simp
next
  case (Suc n)
  show ?case
  proof (cases "a < 2")
    case True
    with Suc.prems show ?thesis by simp
  next
    case False
    then have "1 \<le> a / 2" by simp
    from Suc.IH [OF this] False show ?thesis by (auto simp: field_simps)
  qed
qed

lemma halvings_eq:
  "2 ^ k \<le> a \<Longrightarrow> a < 2 ^ Suc k \<Longrightarrow> k \<le> n \<Longrightarrow> halvings n a = k"
proof (induction n arbitrary: a k)
  case 0
  then show ?case by simp
next
  case (Suc n)
  show ?case
  proof (cases k)
    case 0
    with Suc.prems show ?thesis by simp
  next
    case (Suc j)
    have one: "(1::real) \<le> 2 ^ j" by simp
    have "2 ^ j \<le> a / 2" "a / 2 < 2 ^ Suc j" "j \<le> n"
      using Suc.prems Suc by (simp_all add: field_simps)
    moreover have "2 * 2 ^ j \<le> a" using Suc.prems(1) Suc by simp
    with one have "\<not> a < 2" by linarith
    ultimately show ?thesis using Suc.IH [of j "a / 2"] Suc by simp
  qed
qed

lemma doublings_eq:
  "1 \<le> a * 2 ^ k \<Longrightarrow> a * 2 ^ k < 2 \<Longrightarrow> 0 < k \<Longrightarrow> k \<le> n \<Longrightarrow> 0 < a \<Longrightarrow> doublings n a = k"
proof (induction n arbitrary: a k)
  case 0
  then show ?case by simp
next
  case (Suc n)
  obtain j where k: "k = Suc j" using Suc.prems(3) by (cases k) auto
  have "(1::real) \<le> 2 ^ j" by simp
  then have "a * 2 \<le> a * 2 ^ k" using Suc.prems(5) k by simp
  with Suc.prems(2) have lt: "\<not> 1 \<le> a" by simp
  show ?case
  proof (cases j)
    case 0
    with k Suc.prems lt show ?thesis by (cases n) simp_all
  next
    case (Suc i)
    have "1 \<le> (2 * a) * 2 ^ j" "(2 * a) * 2 ^ j < 2" "0 < j" "j \<le> n" "0 < 2 * a"
      using Suc.prems k Suc by (simp_all add: field_simps)
    from Suc.IH [OF this] lt k show ?thesis by simp
  qed
qed

lemma exponent64_eq:
  assumes "2 powi e \<le> a" "a < 2 powi (e + 1)" "- 1022 \<le> e" "e \<le> 1023"
  shows "exponent64 a = e"
proof (cases "0 \<le> e")
  case True
  then obtain k where k: "e = int k" by (metis nonneg_int_cases)
  have "2 ^ k \<le> a" "a < 2 ^ Suc k" using assms(1,2) k by (simp_all add: power_int_add)
  moreover have "k \<le> 1023" using assms(4) k by simp
  ultimately have "halvings 1023 a = k" by (rule halvings_eq)
  moreover have "(1::real) \<le> 2 ^ k" by simp
  then have "1 \<le> a" using \<open>2 ^ k \<le> a\<close> by linarith
  ultimately show ?thesis by (simp add: exponent64_def k)
next
  case False
  then obtain k where k: "e = - int k" "0 < k"
    by (metis neg_0_less_iff_less not_le zero_less_imp_eq_int minus_minus of_nat_0_less_iff)
  have "(0::real) < 2 powi e" by simp
  with assms(1) have pos: "0 < a" by linarith
  have e1: "2 powi e = 1 / (2::real) ^ k" "2 powi (e + 1) = 2 / (2::real) ^ k"
    using k by (simp_all add: power_int_minus power_int_diff field_simps)
  have a: "1 \<le> a * 2 ^ k" "a * 2 ^ k < 2"
    using assms(1,2) unfolding e1 by (simp_all add: field_simps)
  obtain j where j: "k = Suc j" using k(2) by (cases k) auto
  have "(1::real) \<le> 2 ^ j" by simp
  then have "a * 2 \<le> a * 2 ^ k" using pos j by simp
  with a(2) have lt: "\<not> 1 \<le> a" by simp
  have "k \<le> 1022" using assms(3) k by simp
  with a k(2) pos have "doublings 1022 a = k" by (intro doublings_eq) simp_all
  with lt show ?thesis by (simp add: exponent64_def k)
qed

text \<open>Rounding to an integer.\<close>

lemma roundEven_eqI:
  assumes "\<bar>y - of_int m\<bar> < 1 / 2"
  shows "roundEven y = m"
proof (cases "of_int m \<le> y")
  case True
  with assms have "\<lfloor>y\<rfloor> = m" by (intro floor_unique) linarith+
  with assms True show ?thesis by (simp add: roundEven_def Let_def)
next
  case False
  with assms have f: "\<lfloor>y\<rfloor> = m - 1" by (intro floor_unique) (simp, linarith)+
  have "1 / 2 < y - of_int (m - 1)" using assms False by (simp; linarith?)
  moreover have "\<not> y - of_int (m - 1) < 1 / 2" using assms False by (simp; linarith?)
  ultimately show ?thesis using f by (simp add: roundEven_def Let_def)
qed

lemma roundEven_of_int [simp]: "roundEven (of_int m) = m"
  by (rule roundEven_eqI) simp

lemma roundEven_zero [simp]: "roundEven 0 = 0"
  using roundEven_of_int [of 0] by simp

lemma roundEven_nonneg: "0 \<le> y \<Longrightarrow> 0 \<le> roundEven y"
  unfolding roundEven_def Let_def by (auto split: if_splits)

text \<open>
  The value of \<open>round64\<close> at a positive number of the normal range: with the exponent
  \<open>e\<close> of \<open>x\<close> and the integer \<open>m\<close> nearest to \<open>x / 2 ^ (e - 52)\<close> it is
  \<open>m * 2 ^ (e - 52)\<close>.
\<close>

lemma round64_eqI:
  assumes "2 powi e \<le> x" "x < 2 powi (e + 1)" "- 1022 \<le> e" "e \<le> 1023"
    and "\<bar>x / 2 powi (e - 52) - of_int m\<bar> < 1 / 2"
  shows "round64 x = of_int m * 2 powi (e - 52)"
proof -
  have "(0::real) < 2 powi e" by simp
  with assms(1) have pos: "0 < x" by linarith
  then have "exponent64 \<bar>x\<bar> = e" using assms(1-4) by (simp add: exponent64_eq)
  with pos assms(5) show ?thesis by (simp add: round64_def Let_def roundEven_eqI)
qed

lemma round64_zero [simp]: "round64 0 = 0"
  by (simp add: round64_def)

lemma round64_minus: "round64 (- x) = - round64 x"
  by (simp add: round64_def Let_def)

lemma round64_nonneg: "0 \<le> x \<Longrightarrow> 0 \<le> round64 x"
  by (simp add: round64_def Let_def roundEven_nonneg)

text \<open>The integers up to \<open>2 ^ 53\<close> are binary64 values.\<close>

lemma round64_nat:
  assumes "n \<le> 2 ^ 53"
  shows "round64 (real n) = real n"
proof (cases "n = 0")
  case True
  then show ?thesis by simp
next
  case False
  then have one: "1 \<le> real n" by simp
  define h where "h = halvings 1023 (real n)"
  have lo: "2 ^ h \<le> real n" and le: "h \<le> 1023"
    and up: "real n < 2 ^ Suc h \<or> h = 1023"
    using halvings_spec [OF one, of 1023] by (simp_all add: h_def)
  have "(2::real) ^ h \<le> 2 ^ 53"
    using lo assms by (metis of_nat_le_iff of_nat_numeral of_nat_power order_trans)
  then have h53: "h \<le> 53" by (rule power_le_imp_le_exp [rotated]) simp
  with up have up: "real n < 2 ^ Suc h" by auto
  have e: "exponent64 (real n) = int h" using one by (simp add: exponent64_def h_def)
  show ?thesis
  proof (cases "h \<le> 52")
    case True
    then have "(2::real) powi (int h - 52) = 1 / 2 ^ (52 - h)"
      by (simp add: power_int_def nat_diff_distrib' field_simps)
    then have "real n / 2 powi (int h - 52) = of_int (int n * 2 ^ (52 - h))" by simp
    then have "roundEven (real n / 2 powi (int h - 52)) = int n * 2 ^ (52 - h)"
      by (simp only: roundEven_of_int)
    with \<open>(2::real) powi (int h - 52) = 1 / 2 ^ (52 - h)\<close> show ?thesis
      by (simp add: round64_def Let_def e)
  next
    case False
    with h53 have h: "h = 53" by simp
    with lo assms have n: "n = 2 ^ 53"
      by (metis of_nat_le_iff of_nat_numeral of_nat_power order_antisym)
    have "real n / 2 powi (int h - 52) = of_int (2 ^ 52)" by (simp add: h n)
    then have "roundEven (real n / 2 powi (int h - 52)) = 2 ^ 52"
      by (simp only: roundEven_of_int)
    then show ?thesis by (simp add: round64_def Let_def e) (simp add: h n)
  qed
qed

lemma round64_numeral [simp]:
  "(numeral w :: nat) \<le> 2 ^ 53 \<Longrightarrow> round64 (numeral w) = numeral w"
  using round64_nat [of "numeral w"] by simp

lemma round64_one [simp]: "round64 1 = 1"
  using round64_nat [of 1] by simp

lemma fl_eqI: "round64 x = r \<Longrightarrow> \<bar>r\<bar> < 2 ^ 1024 \<Longrightarrow> fl x = Fin r"
  by (auto simp: fl_def Let_def)

lemma fl_zero [simp]: "fl 0 = Fin 0"
  by (simp add: fl_def)

lemma fl_nat:
  assumes "n \<le> 2 ^ 53"
  shows "fl (real n) = Fin (real n)"
proof (rule fl_eqI)
  show "round64 (real n) = real n" using assms by (rule round64_nat)
  have "real n \<le> real (2 ^ 53)" using assms by (simp only: of_nat_le_iff)
  moreover have "real (2 ^ 53) < 2 ^ 1024" by simp
  ultimately show "\<bar>real n\<bar> < 2 ^ 1024" by simp
qed

lemma fl_numeral [simp]:
  "(numeral w :: nat) \<le> 2 ^ 53 \<Longrightarrow> fl (numeral w) = Fin (numeral w)"
  using fl_nat [of "numeral w"] by simp

lemma fl_one [simp]: "fl 1 = Fin 1"
  by (rule fl_eqI) simp_all

lemma fl_normalI:
  assumes "2 powi e \<le> x" "x < 2 powi (e + 1)" "- 1022 \<le> e" "e \<le> 1023"
    and "\<bar>x / 2 powi (e - 52) - of_int m\<bar> < 1 / 2"
    and "of_int m * 2 powi (e - 52) < (2::real) ^ 1024"
  shows "fl x = Fin (of_int m * 2 powi (e - 52))"
proof (rule fl_eqI)
  show r: "round64 x = of_int m * 2 powi (e - 52)" using assms(1-5) by (rule round64_eqI)
  have "(0::real) < 2 powi e" by simp
  with assms(1) have "0 \<le> x" by linarith
  then have "0 \<le> round64 x" by (rule round64_nonneg)
  with r assms(6) show "\<bar>of_int m * 2 powi (e - 52)\<bar> < (2::real) ^ 1024" by simp
qed

text \<open>The decimal exponent, for the rendering of numbers.\<close>

lemma tenths_eq:
  "10 ^ k \<le> a \<Longrightarrow> a < 10 ^ Suc k \<Longrightarrow> k \<le> n \<Longrightarrow> tenths n a = k"
proof (induction n arbitrary: a k)
  case 0
  then show ?case by simp
next
  case (Suc n)
  show ?case
  proof (cases k)
    case 0
    with Suc.prems show ?thesis by simp
  next
    case (Suc j)
    have one: "(1::real) \<le> 10 ^ j" by simp
    have "10 ^ j \<le> a / 10" "a / 10 < 10 ^ Suc j" "j \<le> n"
      using Suc.prems Suc by (simp_all add: field_simps)
    moreover have "10 * 10 ^ j \<le> a" using Suc.prems(1) Suc by simp
    with one have "\<not> a < 10" by linarith
    ultimately show ?thesis using Suc.IH [of j "a / 10"] Suc by simp
  qed
qed

lemma tenfolds_eq:
  "1 \<le> a * 10 ^ k \<Longrightarrow> a * 10 ^ k < 10 \<Longrightarrow> 0 < k \<Longrightarrow> k \<le> n \<Longrightarrow> 0 < a \<Longrightarrow> tenfolds n a = k"
proof (induction n arbitrary: a k)
  case 0
  then show ?case by simp
next
  case (Suc n)
  obtain j where k: "k = Suc j" using Suc.prems(3) by (cases k) auto
  have "(1::real) \<le> 10 ^ j" by simp
  then have "a * 10 \<le> a * 10 ^ k" using Suc.prems(5) k by simp
  with Suc.prems(2) have lt: "\<not> 1 \<le> a" by simp
  show ?case
  proof (cases j)
    case 0
    with k Suc.prems lt show ?thesis by (cases n) simp_all
  next
    case (Suc i)
    have "1 \<le> (10 * a) * 10 ^ j" "(10 * a) * 10 ^ j < 10" "0 < j" "j \<le> n" "0 < 10 * a"
      using Suc.prems k Suc by (simp_all add: field_simps)
    from Suc.IH [OF this] lt k show ?thesis by simp
  qed
qed

lemma exponent10_eq:
  assumes "10 powi e \<le> a" "a < 10 powi (e + 1)" "- 324 \<le> e" "e \<le> 308"
  shows "exponent10 a = e"
proof (cases "0 \<le> e")
  case True
  then obtain k where k: "e = int k" by (metis nonneg_int_cases)
  have "10 ^ k \<le> a" "a < 10 ^ Suc k" using assms(1,2) k by (simp_all add: power_int_add)
  moreover have "k \<le> 308" using assms(4) k by simp
  ultimately have "tenths 308 a = k" by (rule tenths_eq)
  moreover have "(1::real) \<le> 10 ^ k" by simp
  then have "1 \<le> a" using \<open>10 ^ k \<le> a\<close> by linarith
  ultimately show ?thesis by (simp add: exponent10_def k)
next
  case False
  then obtain k where k: "e = - int k" "0 < k"
    by (metis neg_0_less_iff_less not_le zero_less_imp_eq_int minus_minus of_nat_0_less_iff)
  have "(0::real) < 10 powi e" by simp
  with assms(1) have pos: "0 < a" by linarith
  have e1: "10 powi e = 1 / (10::real) ^ k" "10 powi (e + 1) = 10 / (10::real) ^ k"
    using k by (simp_all add: power_int_minus power_int_diff field_simps)
  have a: "1 \<le> a * 10 ^ k" "a * 10 ^ k < 10"
    using assms(1,2) unfolding e1 by (simp_all add: field_simps)
  obtain j where j: "k = Suc j" using k(2) by (cases k) auto
  have "(1::real) \<le> 10 ^ j" by simp
  then have "a * 10 \<le> a * 10 ^ k" using pos j by simp
  with a(2) have lt: "\<not> 1 \<le> a" by simp
  have "k \<le> 324" using assms(3) k by simp
  with a k(2) pos have "tenfolds 324 a = k" by (intro tenfolds_eq) simp_all
  with lt show ?thesis by (simp add: exponent10_def k)
qed

lemma searchDigits_numeral:
  "searchDigits (numeral w) x k =
     (case digitsAt x k of Some (s, n) \<Rightarrow> (k, s, n)
      | None \<Rightarrow> searchDigits (pred_numeral w) x (Suc k))"
  by (simp add: numeral_eq_Suc)

lemma jsToString_110: "jsToString (Fin 110) = ''110''"
proof -
  have e: "exponent10 110 = 2" by (rule exponent10_eq) simp_all
  have d1: "digitsAt 110 (Suc 0) = None" by (simp add: digitsAt_def e Let_def)
  have d2: "digitsAt 110 (Suc (Suc 0)) = Some (11, 3)" by (simp add: digitsAt_def e Let_def)
  have s: "searchDigits 17 110 (Suc 0) = (2, 11, 3)" by (simp add: searchDigits_numeral d1 d2)
  have "showNat 11 = ''11''" by code_simp
  then show ?thesis by (simp add: jsToString_def positiveToString_def s)
qed

lemma jsToString_12_5: "jsToString (Fin (25 / 2)) = ''12.5''"
proof -
  have e: "exponent10 (25 / 2) = 1" by (rule exponent10_eq) simp_all
  have r: "fl (25 / 2) = Fin (25 / 2)"
    using fl_normalI [of 3 "25 / 2" "7036874417766400"] by (simp add: power_int_minus)
  have d1: "digitsAt (25 / 2) (Suc 0) = None" by (simp add: digitsAt_def e Let_def)
  have d2: "digitsAt (25 / 2) (Suc (Suc 0)) = None" by (simp add: digitsAt_def e Let_def)
  have d3: "digitsAt (25 / 2) (Suc (Suc (Suc 0))) = Some (125, 2)" using r by (simp add: digitsAt_def e Let_def)
  have s: "searchDigits 17 (25 / 2) (Suc 0) = (3, 125, 2)" by (simp add: searchDigits_numeral d1 d2 d3)
  have "showNat 125 = ''125''" by code_simp
  then show ?thesis by (simp add: jsToString_def positiveToString_def s)
qed

section \<open>Duration probe\<close>

lemmas js_string_defs = startsWith_def endsWith_def isDigit_def isSpace_def signOf_def
  digitsVal_def digitVal_def exponentOf_def pow10_def

lemma getVideoDuration_unparsed:
  "\<not> str_falsy path \<Longrightarrow> matchDuration stderr = None \<Longrightarrow>
   \<not> includesStr stderr ''Invalid data found'' \<Longrightarrow>
   getVideoDuration path (CloseEvent code out stderr) = Fulfilled 0"
  by (simp add: getVideoDuration_def onClose_def resolve_def reject_def)

lemma getVideoDurationTask_unparsed:
  "\<not> str_falsy path \<Longrightarrow> parseFloat (trim out) = NaN \<Longrightarrow>
   \<exists>e. getVideoDurationTask path (CloseEvent code out stderr) = Rejected e"
  by (simp add: getVideoDurationTask_def resolve_def reject_def)

text \<open>
  C7: the probe must reject whenever no duration token is found. On an ffmpeg output
  without a \<open>Duration:\<close> line the \<^verbatim>\<open>close\<close> handler calls \<^verbatim>\<open>resolve(0)\<close> before
  \<^verbatim>\<open>reject(...)\<close>, so the promise is fulfilled with the number 0.
\<close>

theorem C7_probe_resolves_zero:
  "matchDuration ''in.mp4: No such file or directory'' = None
   \<and> getVideoDuration (Some ''/usr/bin/ffmpeg'')
        (CloseEvent 1 [] ''in.mp4: No such file or directory'') = Fulfilled 0"
  by code_simp

section \<open>Seek position\<close>












lemma local_path:
  assumes "upstreamData = u # us" "up_output u = Some videoInput" "videoInput \<noteq> []"
    and "cloudinaryShortcut env videoInput (str_or (timestamp (data node)) ''50%'') = None"
  shows "executeExtractFrameNode env node upstreamData =
    (fst (extractBody env node videoInput (str_or (timestamp (data node)) ''50%'')),
     snd (extractBody env node videoInput (str_or (timestamp (data node)) ''50%''))
       @ [RemoveTmpDir])"
  using assms by (simp add: executeExtractFrameNode_def str_falsy_def split: prod.splits)



lemma fl_tenth: "fl (1 / 10) = Fin (7205759403792794 / 2 ^ 56)"
  using fl_normalI [of "- 4" "1 / 10" 7205759403792794] by (simp add: power_int_minus)







lemma round64_half: "round64 (1 / 2) = 1 / 2"
  using round64_eqI [of "- 1" "1 / 2" 4503599627370496] by (simp add: power_int_minus)

text \<open>The example environment: every video takes the local path, and the clip lasts 10 s.\<close>

lemma exampleEnv_probe:
  "getVideoDuration (ffmpegPath exampleEnv) (probe exampleEnv) = Fulfilled 10"
proof -
  have m: "matchDuration ''  Duration: 00:00:10.00, start: 0.000000''
      = Some (''00'', ''00'', ''10.00'')"
    by code_simp
  have p: "parseFloat ''00'' = Fin 0" "parseFloat ''10.00'' = Fin 10"
    by (simp_all add: parseFloat_def js_string_defs)
  have "onClose ''  Duration: 00:00:10.00, start: 0.000000'' Pending = Fulfilled 10"
    unfolding onClose_def m Let_def by (simp add: p resolve_def)
  then show ?thesis
    by (simp add: exampleEnv_def getVideoDuration_def str_falsy_def)
qed


lemma exampleEnv_shortcut: "cloudinaryShortcut exampleEnv videoInput ts = None"
  by (simp add: cloudinaryShortcut_def getVideoFrameUrl_def exampleEnv_def split: option.splits)


lemma frameNode_timestamp: "ts \<noteq> [] \<Longrightarrow> str_or (timestamp (data (frameNode ts))) ''50%'' = ts"
  by (simp add: frameNode_def emptyData_def str_or_def)






section \<open>Bounded downloader\<close>

lemma readLoop_success:
  "readLoop m evs st = (None, st') \<Longrightarrow>
   written st' + downloaded st = written st + downloaded st'
   \<and> (downloaded st \<le> m \<longrightarrow> downloaded st' \<le> m)
   \<and> fileStream st' = fileStream st \<and> cancelled st' = cancelled st"
proof (induction m evs st rule: readLoop.induct)
  case (3 maxBytes n evs st)
  then show ?case by (auto simp: Let_def split: if_splits)
qed simp_all

lemma readLoop_failure:
  "readLoop m evs st = (Some e, st') \<Longrightarrow> fileStream st' = fileStream st"
proof (induction m evs st rule: readLoop.induct)
  case (3 maxBytes n evs st)
  then show ?case by (auto simp: Let_def split: if_splits)
qed simp_all

lemma readLoopTask_success:
  "readLoopTask m evs st = (None, st') \<Longrightarrow>
   written st' + downloaded st = written st + downloaded st'
   \<and> (downloaded st \<le> m \<longrightarrow> downloaded st' \<le> m)
   \<and> fileStream st' = fileStream st \<and> cancelled st' = cancelled st"
proof (induction m evs st rule: readLoopTask.induct)
  case (3 maxBytes n evs st)
  then show ?case by (auto simp: Let_def split: if_splits)
qed simp_all

lemma readLoopTask_failure:
  "readLoopTask m evs st = (Some e, st') \<Longrightarrow> fileStream st' = fileStream st"
proof (induction m evs st rule: readLoopTask.induct)
  case (3 maxBytes n evs st)
  then show ?case by (auto simp: Let_def split: if_splits)
qed simp_all

lemma readLoop_over_cap:
  "m < downloaded st + bodyBytes evs \<Longrightarrow> downloaded st \<le> m \<Longrightarrow>
   \<exists>st'. readLoop m evs st = (Some ''Video too large'', st') \<and> cancelled st'"
proof (induction m evs st rule: readLoop.induct)
  case (3 maxBytes n evs st)
  then show ?case by (auto simp: Let_def)
qed simp_all

lemma readLoopTask_over_cap:
  "m < downloaded st + bodyBytes evs \<Longrightarrow> downloaded st \<le> m \<Longrightarrow>
   \<exists>e st'. readLoopTask m evs st = (Some e, st') \<and> cancelled st'"
proof (induction m evs st rule: readLoopTask.induct)
  case (3 maxBytes n evs st)
  then show ?case by (auto simp: Let_def)
qed simp_all

text \<open>
  A download that succeeds has written exactly the bytes it read, at most \<open>maxBytes\<close> of
  them, and has closed the destination; a body that crosses the cap cancels the reader and
  fails. Both hold for the execution module and for the task.
\<close>

lemma downloadVideo_success:
  assumes "downloadVideo fr m = (Inr (), st)"
  shows "written st = downloaded st \<and> downloaded st \<le> m \<and> fileStream st = Closed
         \<and> timerCleared st"
  using assms
  by (auto simp: downloadVideo_def newDownload_def Let_def
      split: fetch_result.splits if_splits option.splits prod.splits
      dest!: readLoop_success)

lemma downloadVideoTask_success:
  assumes "downloadVideoTask fr m = (Inr (), st)"
  shows "written st = downloaded st \<and> downloaded st \<le> m \<and> fileStream st = Closed
         \<and> timerCleared st"
  using assms
  by (auto simp: downloadVideoTask_def newDownload_def Let_def
      split: fetch_result.splits if_splits option.splits prod.splits
      dest!: readLoopTask_success)

lemma downloadVideo_over_cap:
  assumes "ok r" "body r = Some evs" "m < bodyBytes evs"
  shows "\<exists>st. downloadVideo (FetchOk r) m = (Inl ''Video too large'', st) \<and> cancelled st"
proof -
  obtain st' where "readLoop m evs (newDownload\<lparr>fileStream := Opened\<rparr>)
      = (Some ''Video too large'', st')" "cancelled st'"
    using readLoop_over_cap [of m "newDownload\<lparr>fileStream := Opened\<rparr>" evs] assms(3)
    by (auto simp: newDownload_def)
  with assms(1,2) show ?thesis by (simp add: downloadVideo_def)
qed

text \<open>
  The task rejects a declared length above the cap before it reads the body: nothing is
  transferred and no destination is opened.
\<close>

lemma downloadVideoTask_declared_too_large:
  assumes "ok r" "contentLength r = Some cl" "cl \<noteq> []" "parseInt cl = Some n" "n > int m"
  shows "\<exists>e. downloadVideoTask (FetchOk r) m = (Inl e, newDownload\<lparr>timerCleared := True\<rparr>)"
  using assms by (simp add: downloadVideoTask_def str_falsy_def)

text \<open>
  C3: a declared \<^verbatim>\<open>content-length\<close> above \<open>maxBytes\<close> must fail the call before any body
  byte is transferred. \<^verbatim>\<open>downloadVideo\<close> of the execution module never reads the header:
  with 200 MB declared against the 100 MB cap it opens the destination and streams the
  body, failing only once the running count crosses the cap (here after 104857601 bytes),
  and it succeeds when the body turns out to be short. The task's \<^verbatim>\<open>downloadVideo\<close>
  rejects the same responses with nothing transferred.
\<close>

theorem C3_declared_length_ignored:
  "downloadVideo (FetchOk \<lparr>ok = True, status = 200, statusText = ''OK'',
       contentLength = Some ''209715200'', body = Some [Chunk 104857600, Chunk 1]\<rparr>)
     MAX_VIDEO_SIZE_BYTES
   = (Inl ''Video too large'', \<lparr>fileStream = Opened, written = 104857600,
        downloaded = 104857601, cancelled = True, timerCleared = True\<rparr>)
   \<and> downloadVideo (FetchOk \<lparr>ok = True, status = 200, statusText = ''OK'',
       contentLength = Some ''209715200'', body = Some [Chunk 1000]\<rparr>)
     MAX_VIDEO_SIZE_BYTES
   = (Inr (), \<lparr>fileStream = Closed, written = 1000, downloaded = 1000, cancelled = False,
        timerCleared = True\<rparr>)
   \<and> snd (downloadVideoTask (FetchOk \<lparr>ok = True, status = 200, statusText = ''OK'',
       contentLength = Some ''209715200'', body = Some [Chunk 104857600, Chunk 1]\<rparr>)
     MAX_VIDEO_SIZE_BYTES)
   = \<lparr>fileStream = NotOpened, written = 0, downloaded = 0, cancelled = False,
        timerCleared = True\<rparr>"
  by (simp add: downloadVideo_def downloadVideoTask_def newDownload_def
      MAX_VIDEO_SIZE_BYTES_def str_falsy_def parseInt_def js_string_defs)

text \<open>
  C9: the destination handle must be closed on every exit path. When the running count
  crosses the cap, or a read fails in the middle of the transfer (the abort of the timer),
  both implementations throw out of the loop with the write stream still open: only the
  normal path ends it. The execution module also leaves it open when the response has no
  body.
\<close>

theorem C9_handle_left_open:
  "fileStream (snd (downloadVideo (FetchOk \<lparr>ok = True, status = 200, statusText = ''OK'',
       contentLength = None, body = Some [Chunk 60, Chunk 60]\<rparr>) 100)) = Opened
   \<and> fileStream (snd (downloadVideoTask (FetchOk \<lparr>ok = True, status = 200, statusText = ''OK'',
       contentLength = None, body = Some [Chunk 60, Chunk 60]\<rparr>) 100)) = Opened
   \<and> fileStream (snd (downloadVideo (FetchOk \<lparr>ok = True, status = 200, statusText = ''OK'',
       contentLength = None, body = Some [Chunk 60, ReadFail ''This operation was aborted'']\<rparr>)
       100)) = Opened
   \<and> fileStream (snd (downloadVideoTask (FetchOk \<lparr>ok = True, status = 200, statusText = ''OK'',
       contentLength = None, body = Some [Chunk 60, ReadFail ''This operation was aborted'']\<rparr>)
       100)) = Opened
   \<and> fileStream (snd (downloadVideo (FetchOk \<lparr>ok = True, status = 200, statusText = ''OK'',
       contentLength = None, body = None\<rparr>) 100)) = Opened"
  by (simp add: downloadVideo_def downloadVideoTask_def newDownload_def str_falsy_def)

text \<open>On the other exit paths the handle is closed or was never opened.\<close>

lemma downloadVideo_handle:
  "fileStream (snd (downloadVideo fr m)) =
     (case fr of FetchFail e \<Rightarrow> NotOpened
      | FetchOk r \<Rightarrow> if \<not> ok r then NotOpened
                     else if isl (fst (downloadVideo fr m)) then Opened else Closed)"
  by (auto simp: downloadVideo_def newDownload_def Let_def
      split: fetch_result.splits option.splits prod.splits dest: readLoop_failure)

section \<open>Crop rectangle\<close>

text \<open>The client and, with a width and a height other than 0, the executor compute the
  rectangle from the percentages they are given.\<close>

lemma cropImageClient_eq_cropRegion:
  "cropImageClient W H ps =
     cropRegion (int W) (int H) (p_xPercent ps) (p_yPercent ps) (p_widthPercent ps)
       (p_heightPercent ps)"
  by (simp add: cropImageClient_def)

lemma executeCropRegion_eq_cropRegion:
  assumes "xPercent (data n) = Some x" "yPercent (data n) = Some y"
    "widthPercent (data n) = Some w" "heightPercent (data n) = Some h" "w \<noteq> 0" "h \<noteq> 0"
    "0 < W" "0 < H"
  shows "executeCropRegion n (Some W) (Some H) = cropRegion (int W) (int H) x y w h"
  using assms by (simp add: executeCropRegion_def num_or_def Let_def)

lemma jsRound_nonneg: "0 \<le> x \<Longrightarrow> 0 \<le> jsRound x"
  by (simp add: jsRound_def)

lemma jsRound_int: "jsRound (real_of_int k) = k"
  by (simp add: jsRound_def)

text \<open>The rectangle lies within the image and is never empty.\<close>

lemma cropRegion_bounds:
  assumes "1 \<le> W" "1 \<le> H" "0 \<le> x" "0 \<le> y"
  shows "0 \<le> r_left (cropRegion W H x y w h) \<and> 0 \<le> r_top (cropRegion W H x y w h)
    \<and> 1 \<le> r_width (cropRegion W H x y w h) \<and> 1 \<le> r_height (cropRegion W H x y w h)
    \<and> r_left (cropRegion W H x y w h) + r_width (cropRegion W H x y w h) \<le> W
    \<and> r_top (cropRegion W H x y w h) + r_height (cropRegion W H x y w h) \<le> H"
proof -
  have "0 \<le> round64 (x / 100)" "0 \<le> round64 (y / 100)"
    using assms by (simp_all add: round64_nonneg)
  then have "0 \<le> round64 (x / 100) * real_of_int W" "0 \<le> round64 (y / 100) * real_of_int H"
    using assms by simp_all
  then have "0 \<le> jsRound (round64 (round64 (x / 100) * real_of_int W))"
    "0 \<le> jsRound (round64 (round64 (y / 100) * real_of_int H))"
    by (simp_all add: jsRound_nonneg round64_nonneg)
  with assms(1,2) show ?thesis
    unfolding cropRegion_def Let_def CropRegion.simps by (simp only: min_def max_def) (simp, linarith?)
qed

lemma specRegion_bounds:
  assumes "1 \<le> W" "1 \<le> H" "0 \<le> x" "0 \<le> y"
  shows "0 \<le> r_left (specRegion W H x y w h) \<and> 0 \<le> r_top (specRegion W H x y w h)
    \<and> 1 \<le> r_width (specRegion W H x y w h) \<and> 1 \<le> r_height (specRegion W H x y w h)
    \<and> r_left (specRegion W H x y w h) + r_width (specRegion W H x y w h) \<le> W
    \<and> r_top (specRegion W H x y w h) + r_height (specRegion W H x y w h) \<le> H"
proof -
  have "0 \<le> jsRound (x / 100 * real_of_int W)" "0 \<le> jsRound (y / 100 * real_of_int H)"
    using assms by (simp_all add: jsRound_nonneg)
  with assms(1,2) show ?thesis
    unfolding specRegion_def CropRegion.simps by (simp only: min_def max_def) (simp, linarith?)
qed

text \<open>The whole image, for sizes below \<open>2 ^ 53\<close>.\<close>

lemma round64_of_int:
  assumes "0 \<le> k" "k \<le> 2 ^ 53"
  shows "round64 (real_of_int k) = real_of_int k"
proof -
  have "nat k \<le> 2 ^ 53" using assms by (simp add: nat_le_iff)
  from round64_nat [OF this] assms(1) show ?thesis by simp
qed

lemma cropRegion_full:
  assumes "1 \<le> W" "1 \<le> H" "W \<le> 2 ^ 53" "H \<le> 2 ^ 53"
  shows "cropRegion W H 0 0 100 100 = \<lparr>r_left = 0, r_top = 0, r_width = W, r_height = H\<rparr>"
proof -
  have "round64 (real_of_int W) = real_of_int W" "round64 (real_of_int H) = real_of_int H"
    using assms by (simp_all add: round64_of_int)
  with assms(1,2) show ?thesis by (simp add: cropRegion_def Let_def jsRound_int jsRound_def)
qed

lemma specRegion_full:
  "1 \<le> W \<Longrightarrow> 1 \<le> H \<Longrightarrow>
   specRegion W H 0 0 100 100 = \<lparr>r_left = 0, r_top = 0, r_width = W, r_height = H\<rparr>"
  by (simp add: specRegion_def jsRound_int) (simp add: jsRound_def)

text \<open>The example of the specification: 90% and 50% on a 100 x 100 image.\<close>

lemma round64_0_9: "round64 (9 / 10) = 8106479329266893 / 2 ^ 53"
  using round64_eqI [of "- 1" "9 / 10" 8106479329266893] by (simp add: power_int_minus)

lemma round64_90: "round64 (8106479329266893 / 2 ^ 53 * 100) = 90"
  using round64_eqI [of 6 "8106479329266893 / 2 ^ 53 * 100" 6333186975989760]
  by (simp add: power_int_minus)

lemma cropRegion_example:
  "cropRegion 100 100 90 0 50 100 = \<lparr>r_left = 90, r_top = 0, r_width = 10, r_height = 100\<rparr>"
proof -
  have a: "round64 (round64 (9 / 10) * 100) = 90"
    by (simp only: round64_0_9 round64_90)
  have b: "round64 (round64 (1 / 2) * 100) = 50"
    by (simp add: round64_half)
  show ?thesis
    by (simp add: cropRegion_def Let_def a b jsRound_def)
qed

lemma specRegion_example:
  "specRegion 100 100 90 0 50 100 = \<lparr>r_left = 90, r_top = 0, r_width = 10, r_height = 100\<rparr>"
  by (simp add: specRegion_def jsRound_def)

text \<open>
  The products are rounded to binary64 before \<^verbatim>\<open>Math.round\<close>: 29% of 50 is
  14.499999999999998 and 57% of 50 is 28.499999999999996 in binary64, so the code crops
  from 14 and 28, where the exact products 14.5 and 28.5 round to 15 and 29.
\<close>

lemma round64_0_29: "round64 (29 / 100) = 5224175567749775 / 2 ^ 54"
  using round64_eqI [of "- 2" "29 / 100" 5224175567749775] by (simp add: power_int_minus)

lemma round64_14_5: "round64 (5224175567749775 / 2 ^ 54 * 50) = 8162774324609023 / 2 ^ 49"
  using round64_eqI [of 3 "5224175567749775 / 2 ^ 54 * 50" 8162774324609023]
  by (simp add: power_int_minus)

lemma round64_0_57: "round64 (57 / 100) = 5134103575202365 / 2 ^ 53"
  using round64_eqI [of "- 1" "57 / 100" 5134103575202365] by (simp add: power_int_minus)

lemma round64_28_5: "round64 (5134103575202365 / 2 ^ 53 * 50) = 8022036836253695 / 2 ^ 48"
  using round64_eqI [of 4 "5134103575202365 / 2 ^ 53 * 50" 8022036836253695]
  by (simp add: power_int_minus)

lemma cropRegion_rounding:
  "cropRegion 50 50 29 57 10 10 = \<lparr>r_left = 14, r_top = 28, r_width = 5, r_height = 5\<rparr>
   \<and> specRegion 50 50 29 57 10 10 = \<lparr>r_left = 15, r_top = 29, r_width = 5, r_height = 5\<rparr>"
proof -
  have a: "round64 (round64 (29 / 100) * 50) = 8162774324609023 / 2 ^ 49"
    by (simp only: round64_0_29 round64_14_5)
  have b: "round64 (round64 (57 / 100) * 50) = 8022036836253695 / 2 ^ 48"
    by (simp only: round64_0_57 round64_28_5)
  have t: "round64 (1 / 10) = 7205759403792794 / 2 ^ 56"
    using round64_eqI [of "- 4" "1 / 10" 7205759403792794] by (simp add: power_int_minus)
  have c: "round64 (7205759403792794 / 2 ^ 56 * 50) = 5"
    using round64_eqI [of 2 "7205759403792794 / 2 ^ 56 * 50" 5629499534213120]
    by (simp add: power_int_minus)
  have c': "round64 (round64 (1 / 10) * 50) = 5"
    by (simp only: t c)
  have "cropRegion 50 50 29 57 10 10
      = \<lparr>r_left = 14, r_top = 28, r_width = 5, r_height = 5\<rparr>"
    by (simp add: cropRegion_def Let_def a b c' jsRound_def)
  moreover have "specRegion 50 50 29 57 10 10
      = \<lparr>r_left = 15, r_top = 29, r_width = 5, r_height = 5\<rparr>"
    by (simp add: specRegion_def jsRound_def)
  ultimately show ?thesis by (intro conjI)
qed

text \<open>
  C5: for percentages in \<open>[0, 100]\<close> the executor must compute
  \<open>cropWidth = max(min(round(width% * W), W - left), 1)\<close>. With \<^verbatim>\<open>widthPercent = 0\<close> (the
  schema and the slider allow it) the executor reads \<^verbatim>\<open>widthPercent || 100\<close>, which is
  100, and crops the whole width of a 100 x 100 image where the rule gives 1 pixel;
  \<^verbatim>\<open>cropImageClient\<close>, which takes the parameter as it is, gives 1 pixel.
\<close>

theorem C5_zero_width_defaults:
  "executeCropRegion \<lparr>ident = ''c1'', ntype = ''cropImageNode'',
       data = emptyData\<lparr>xPercent := Some 0, yPercent := Some 0, widthPercent := Some 0,
         heightPercent := Some 50\<rparr>\<rparr> (Some 100) (Some 100)
     = \<lparr>r_left = 0, r_top = 0, r_width = 100, r_height = 50\<rparr>
   \<and> specRegion 100 100 0 0 0 50 = \<lparr>r_left = 0, r_top = 0, r_width = 1, r_height = 50\<rparr>
   \<and> cropImageClient 100 100
       \<lparr>p_xPercent = 0, p_yPercent = 0, p_widthPercent = 0, p_heightPercent = 50\<rparr>
     = \<lparr>r_left = 0, r_top = 0, r_width = 1, r_height = 50\<rparr>"
  by (simp add: executeCropRegion_def cropImageClient_def cropRegion_def specRegion_def
      num_or_def jsRound_def emptyData_def round64_half)

section \<open>Frame extraction executor\<close>

lemma getVideoDuration_settled: "getVideoDuration path ev \<noteq> Pending"
  by (auto simp: getVideoDuration_def onClose_def resolve_def reject_def Let_def
      split: spawn_event.splits option.splits jsnum.splits prod.splits)

lemma includesStr_nonempty: "includesStr s p \<Longrightarrow> p \<noteq> [] \<Longrightarrow> s \<noteq> []"
  by (cases s) auto

text \<open>The local path does not ask the URL builder.\<close>

lemma local_cloudinaryUrl:
  "materialise (env\<lparr>cloudinaryUrl := sdk\<rparr>) videoInput = materialise env videoInput"
  "extractFrameParams (env\<lparr>cloudinaryUrl := sdk\<rparr>) seek = extractFrameParams env seek"
  "storeFrame (env\<lparr>cloudinaryUrl := sdk\<rparr>) node = storeFrame env node"
  "ffmpegPath (env\<lparr>cloudinaryUrl := sdk\<rparr>) = ffmpegPath env"
  "probe (env\<lparr>cloudinaryUrl := sdk\<rparr>) = probe env"
  "frameWritten (env\<lparr>cloudinaryUrl := sdk\<rparr>) = frameWritten env"
  by (simp_all add: materialise_def extractFrameParams_def storeFrame_def Let_def
      split: option.splits sum.splits)

lemma extractBody_cloudinaryUrl [simp]:
  "extractBody (env\<lparr>cloudinaryUrl := sdk\<rparr>) node videoInput ts
     = extractBody env node videoInput ts"
  unfolding extractBody_def local_cloudinaryUrl by (rule refl)

lemma cloudinary_example:
  "includesStr ''https://res.cloudinary.com/demo/video/upload/v1700000000/weavy/clip.mp4''
     ''cloudinary.com''"
  "matchPublicId ''https://res.cloudinary.com/demo/video/upload/v1700000000/weavy/clip.mp4''
     = Some ''weavy/clip''"
  "replaceFirst (replaceFirst ''weavy/clip'' ''.mp4'' ''.jpg'') ''.mov'' ''.jpg'' = ''weavy/clip''"
  by code_simp+

lemma cloudinary_example_body:
  "extractBody exampleEnv (frameNode ts)
     ''https://res.cloudinary.com/demo/video/upload/v1700000000/weavy/clip.mp4'' ''110%''
   = (Inl ''Invalid percentage timestamp: 110%'',
      [MakeTmpDir,
       DownloadVideo ''https://res.cloudinary.com/demo/video/upload/v1700000000/weavy/clip.mp4'',
       ProbeDuration])"
proof -
  have m: "materialise exampleEnv
      ''https://res.cloudinary.com/demo/video/upload/v1700000000/weavy/clip.mp4''
    = (None, [DownloadVideo
        ''https://res.cloudinary.com/demo/video/upload/v1700000000/weavy/clip.mp4''])"
    by (simp add: materialise_def exampleEnv_def startsWith_def downloadVideo_def
        newDownload_def)
  have s: "seekSeconds ''110%'' 10 = Inl ''Invalid percentage timestamp: 110%''"
    by (simp add: seekSeconds_def parseFloat_def js_string_defs)
  show ?thesis by (simp add: extractBody_def m exampleEnv_probe s)
qed

text \<open>
  C10, as stated, has the executor return a Cloudinary frame URL at once for every
  Cloudinary video whose path matches, so that \<open>110%\<close> raises no validation error. The
  call of the URL builder sits in a \<^verbatim>\<open>try\<close> block: when the builder throws, the executor
  goes on to the local path, downloads and probes the video and rejects \<open>110%\<close>.
\<close>

theorem C10_builder_throws:
  "includesStr ''https://res.cloudinary.com/demo/video/upload/v1700000000/weavy/clip.mp4''
     ''cloudinary.com''
   \<and> matchPublicId ''https://res.cloudinary.com/demo/video/upload/v1700000000/weavy/clip.mp4''
       = Some ''weavy/clip''
   \<and> executeExtractFrameNode exampleEnv (frameNode ''110%'') cloudinaryVideo
       = (Inl ''Invalid percentage timestamp: 110%'',
          [MakeTmpDir,
           DownloadVideo
             ''https://res.cloudinary.com/demo/video/upload/v1700000000/weavy/clip.mp4'',
           ProbeDuration, RemoveTmpDir])"
proof -
  have "executeExtractFrameNode exampleEnv (frameNode ''110%'') cloudinaryVideo
       = (Inl ''Invalid percentage timestamp: 110%'',
          [MakeTmpDir,
           DownloadVideo
             ''https://res.cloudinary.com/demo/video/upload/v1700000000/weavy/clip.mp4'',
           ProbeDuration, RemoveTmpDir])"
    by (simp add: executeExtractFrameNode_def cloudinaryVideo_def str_falsy_def
        frameNode_timestamp exampleEnv_shortcut cloudinary_example_body)
  with cloudinary_example(1,2) show ?thesis by (intro conjI)
qed

text \<open>
  C10, amended: when the upstream video reference contains \<open>cloudinary.com\<close> and matches
  the upload public-id pattern, the executor asks the URL builder of the SDK for the frame
  of the public id (with \<^verbatim>\<open>.mp4\<close> or \<^verbatim>\<open>.mov\<close> in it replaced) at the start offset that the
  timestamp parses to, a percentage as the number followed by \<open>p\<close>, without validating
  it. If the builder returns a URL, that URL is the result at once: nothing is
  downloaded, probed or extracted, whatever the timestamp is. If the builder throws, the
  executor goes on to the local path, where the timestamp is validated (C2).
\<close>

theorem C10_cloudinary_shortcut:
  assumes "upstreamData = u # us" and "up_output u = Some videoInput"
    and "includesStr videoInput ''cloudinary.com''"
    and "matchPublicId videoInput = Some publicId"
    and "ts = str_or (timestamp (data node)) ''50%''"
  shows "executeExtractFrameNode env node upstreamData =
    (case cloudinaryUrl env
            (replaceFirst (replaceFirst publicId ''.mp4'' ''.jpg'') ''.mov'' ''.jpg'')
            (if endsWith ts ''%'' then jsToString (parseFloat ts) @ ''p''
             else jsToString (parseFloat ts)) of
       Inr frameUrl \<Rightarrow> (Inr frameUrl, [])
     | Inl e \<Rightarrow> (fst (extractBody env node videoInput ts),
                 snd (extractBody env node videoInput ts) @ [RemoveTmpDir]))"
proof -
  let ?pid = "replaceFirst (replaceFirst publicId ''.mp4'' ''.jpg'') ''.mov'' ''.jpg''"
  let ?off = "if endsWith ts ''%'' then jsToString (parseFloat ts) @ ''p''
              else jsToString (parseFloat ts)"
  have ne: "videoInput \<noteq> []"
    using assms(3) by (rule includesStr_nonempty) simp
  have g: "getVideoFrameUrl env publicId ts = cloudinaryUrl env ?pid ?off"
    by (simp add: getVideoFrameUrl_def)
  show ?thesis
  proof (cases "cloudinaryUrl env ?pid ?off")
    case (Inl e)
    then have "cloudinaryShortcut env videoInput ts = None"
      using assms(3,4) g by (simp add: cloudinaryShortcut_def)
    from local_path [OF assms(1,2) ne this [unfolded assms(5)]] Inl
    show ?thesis by (simp add: assms(5))
  next
    case (Inr frameUrl)
    then have "cloudinaryShortcut env videoInput ts = Some frameUrl"
      using assms(3,4) g by (simp add: cloudinaryShortcut_def)
    with assms(1,2,5) ne Inr show ?thesis
      by (simp add: executeExtractFrameNode_def str_falsy_def)
  qed
qed

text \<open>
  With the timestamp \<open>110%\<close> and any URL builder \<open>sdk\<close>: the builder is asked for the
  frame of \<open>weavy/clip\<close> at \<open>110p\<close>; its URL is returned with no action, and only when it
  throws is the video downloaded and the timestamp rejected.
\<close>

theorem C10_cloudinary_shortcut_witness:
  "\<forall>sdk. executeExtractFrameNode (exampleEnv\<lparr>cloudinaryUrl := sdk\<rparr>) (frameNode ''110%'')
       cloudinaryVideo
     = (case sdk ''weavy/clip'' ''110p'' of
          Inr frameUrl \<Rightarrow> (Inr frameUrl, [])
        | Inl e \<Rightarrow>
            (Inl ''Invalid percentage timestamp: 110%'',
             [MakeTmpDir,
              DownloadVideo
                ''https://res.cloudinary.com/demo/video/upload/v1700000000/weavy/clip.mp4'',
              ProbeDuration, RemoveTmpDir]))"
proof
  fix sdk :: "string \<Rightarrow> string \<Rightarrow> string + string"
  have uo: "up_output \<lparr>up_nodeId = ''v1'', up_output =
        Some ''https://res.cloudinary.com/demo/video/upload/v1700000000/weavy/clip.mp4''\<rparr>
      = Some ''https://res.cloudinary.com/demo/video/upload/v1700000000/weavy/clip.mp4''"
    by simp
  have ts: "''110%'' = str_or (timestamp (data (frameNode ''110%''))) ''50%''"
    by (simp add: frameNode_timestamp)
  have p: "parseFloat ''110%'' = Fin 110"
    by (simp add: parseFloat_def js_string_defs)
  have off: "(if endsWith ''110%'' ''%'' then jsToString (parseFloat ''110%'') @ ''p''
             else jsToString (parseFloat ''110%'')) = ''110p''"
    unfolding p jsToString_110 by (simp add: endsWith_def)
  have sel: "cloudinaryUrl (exampleEnv\<lparr>cloudinaryUrl := sdk\<rparr>) = sdk" by simp
  note th = C10_cloudinary_shortcut [OF cloudinaryVideo_def uo cloudinary_example(1,2) ts,
      of "exampleEnv\<lparr>cloudinaryUrl := sdk\<rparr>"]
  show "executeExtractFrameNode (exampleEnv\<lparr>cloudinaryUrl := sdk\<rparr>) (frameNode ''110%'')
       cloudinaryVideo
     = (case sdk ''weavy/clip'' ''110p'' of
          Inr frameUrl \<Rightarrow> (Inr frameUrl, [])
        | Inl e \<Rightarrow>
            (Inl ''Invalid percentage timestamp: 110%'',
             [MakeTmpDir,
              DownloadVideo
                ''https://res.cloudinary.com/demo/video/upload/v1700000000/weavy/clip.mp4'',
              ProbeDuration, RemoveTmpDir]))"
    unfolding th cloudinary_example(3) off sel extractBody_cloudinaryUrl
      cloudinary_example_body fst_conv snd_conv append_Cons append_Nil
    by (rule refl)
qed

section \<open>DAG validator\<close>

lemma set_newSet_aux: "set (foldl (\<lambda>s x. setAdd x s) acc xs) = set acc \<union> set xs"
  by (induction xs arbitrary: acc) (auto simp: setAdd_def)

lemma distinct_newSet_aux: "distinct acc \<Longrightarrow> distinct (foldl (\<lambda>s x. setAdd x s) acc xs)"
  by (induction xs arbitrary: acc) (auto simp: setAdd_def)

lemma set_newSet [simp]: "set (newSet xs) = set xs"
  by (simp add: newSet_def set_newSet_aux)

lemma distinct_newSet [simp]: "distinct (newSet xs)"
  by (simp add: newSet_def distinct_newSet_aux)

lemma closed_rtrancl:
  assumes "(c, x) \<in> r\<^sup>*" "c \<in> B" "\<forall>b \<in> B. \<forall>d. (b, d) \<in> r \<longrightarrow> d \<in> B"
  shows "x \<in> B"
  using assms by (induction rule: rtrancl_induct) auto

lemma dfsInv_stack: "dfsInv adj (V, S) \<Longrightarrow> S \<subseteq> V"
  by (simp add: dfsInv_def)

lemma dfsInv_push:
  assumes "dfsInv adj (V, S)" "n \<notin> V"
  shows "dfsInv adj (insert n V, insert n S)"
proof -
  have SV: "S \<subseteq> V" using assms(1) by (rule dfsInv_stack)
  with assms(2) have eq: "insert n V - insert n S = V - S" by blast
  from assms(1) SV show ?thesis
    unfolding dfsInv_def fst_conv snd_conv eq by blast
qed

lemma dfsInv_pop:
  assumes inv: "dfsInv adj (V', insert n S)" and n: "n \<in> V'" "n \<notin> S"
    and nb: "set (neighborsOf adj n) \<subseteq> V' - insert n S"
  shows "dfsInv adj (V', S)"
proof -
  let ?E = "edgesOf adj" and ?B = "V' - insert n S"
  have B: "V' - S = insert n ?B" using n by blast
  have SV: "S \<subseteq> V'" using dfsInv_stack [OF inv] by blast
  have closed: "\<forall>b \<in> ?B. \<forall>d. (b, d) \<in> ?E \<longrightarrow> d \<in> ?B"
    using inv unfolding dfsInv_def fst_conv snd_conv by blast
  have acyc: "\<forall>b \<in> ?B. (b, b) \<notin> ?E\<^sup>+"
    using inv unfolding dfsInv_def fst_conv snd_conv by blast
  have succ: "c \<in> ?B" if "(n, c) \<in> ?E" for c
    using nb that unfolding edgesOf_def by blast
  have nn: "(n, n) \<notin> ?E\<^sup>+"
  proof
    assume "(n, n) \<in> ?E\<^sup>+"
    then obtain c where c: "(n, c) \<in> ?E" "(c, n) \<in> ?E\<^sup>*"
      by (meson converse_tranclE rtrancl_eq_or_trancl tranclD)
    have "n \<in> ?B" by (rule closed_rtrancl [OF c(2) succ [OF c(1)] closed])
    then show False by blast
  qed
  have closed': "\<forall>b \<in> insert n ?B. \<forall>d. (b, d) \<in> ?E \<longrightarrow> d \<in> insert n ?B"
    using closed succ by blast
  have acyc': "\<forall>b \<in> insert n ?B. (b, b) \<notin> ?E\<^sup>+"
    using acyc nn by blast
  from SV closed' acyc' show ?thesis
    unfolding dfsInv_def fst_conv snd_conv B by blast
qed

text \<open>
  What a call of \<open>hasCycle\<close> and a run of its loop establish: a reported cycle exists, and
  otherwise the stack is as before and the nodes gone through are finished.
\<close>

lemma dfs_sound:
  "dfsInv adj st \<Longrightarrow> n \<notin> fst st \<Longrightarrow> \<forall>s \<in> snd st. (s, n) \<in> (edgesOf adj)\<^sup>* \<Longrightarrow>
     (case hasCycle adj n st of
        (True, st') \<Rightarrow> \<exists>x. (x, x) \<in> (edgesOf adj)\<^sup>+
      | (False, st') \<Rightarrow> snd st' = snd st \<and> fst st \<subseteq> fst st' \<and> n \<in> fst st' \<and> dfsInv adj st')"
  "dfsInv adj st \<Longrightarrow>
     \<forall>m. m \<in> snd st \<and> (\<forall>s \<in> snd st. (s, m) \<in> (edgesOf adj)\<^sup>*)
          \<and> set l \<subseteq> set (neighborsOf adj m) \<longrightarrow>
     (case forNeighbors adj l st of
        (True, st') \<Rightarrow> \<exists>x. (x, x) \<in> (edgesOf adj)\<^sup>+
      | (False, st') \<Rightarrow> snd st' = snd st \<and> fst st \<subseteq> fst st' \<and> set l \<subseteq> fst st' - snd st
          \<and> dfsInv adj st')"
proof (induction adj n st and adj l st rule: hasCycle_forNeighbors.induct)
  case (1 adj nodeId visited recursionStack)
  let ?E = "edgesOf adj"
  let ?st = "(insert nodeId visited, insert nodeId recursionStack)"
  have nV: "nodeId \<notin> visited" using 1(3) by simp
  have nS: "nodeId \<notin> recursionStack" using nV dfsInv_stack [OF 1(2)] by blast
  have inv: "dfsInv adj ?st"
    using dfsInv_push [OF 1(2) nV] .
  have pre: "nodeId \<in> snd ?st \<and> (\<forall>s \<in> snd ?st. (s, nodeId) \<in> ?E\<^sup>*)
      \<and> set (neighborsOf adj nodeId) \<subseteq> set (neighborsOf adj nodeId)"
    using 1(4) by auto
  obtain b V' S' where r: "forNeighbors adj (neighborsOf adj nodeId) ?st = (b, V', S')"
    by (cases "forNeighbors adj (neighborsOf adj nodeId) ?st") auto
  from 1(1) [OF inv, THEN spec, THEN mp, OF pre]
  have ih: "case forNeighbors adj (neighborsOf adj nodeId) ?st of
        (True, st') \<Rightarrow> \<exists>x. (x, x) \<in> ?E\<^sup>+
      | (False, st') \<Rightarrow> snd st' = snd ?st \<and> fst ?st \<subseteq> fst st'
          \<and> set (neighborsOf adj nodeId) \<subseteq> fst st' - snd ?st \<and> dfsInv adj st'" .
  show ?case
  proof (cases b)
    case True
    with ih r show ?thesis by (simp add: hasCycle.simps)
  next
    case False
    with ih r have S': "S' = insert nodeId recursionStack" and V': "insert nodeId visited \<subseteq> V'"
      and nb: "set (neighborsOf adj nodeId) \<subseteq> V' - insert nodeId recursionStack"
      and inv': "dfsInv adj (V', insert nodeId recursionStack)"
      by auto
    have "dfsInv adj (V', recursionStack)"
      using dfsInv_pop [OF inv' _ nS nb] V' by auto
    with False r S' V' nS show ?thesis by (auto simp: hasCycle.simps)
  qed
next
  case (2 adj st)
  then show ?case by simp
next
  case (3 adj neighbor rest visited recursionStack)
  let ?E = "edgesOf adj"
  show ?case
  proof (intro allI impI)
    fix m
    assume m: "m \<in> snd (visited, recursionStack)
        \<and> (\<forall>s \<in> snd (visited, recursionStack). (s, m) \<in> ?E\<^sup>*)
        \<and> set (neighbor # rest) \<subseteq> set (neighborsOf adj m)"
    then have mS: "m \<in> recursionStack" and paths: "\<forall>s \<in> recursionStack. (s, m) \<in> ?E\<^sup>*"
      and edge: "(m, neighbor) \<in> ?E" and rest: "set rest \<subseteq> set (neighborsOf adj m)"
      by (auto simp: edgesOf_def)
    have SV: "recursionStack \<subseteq> visited" using 3(4) by (rule dfsInv_stack)
    show "case forNeighbors adj (neighbor # rest) (visited, recursionStack) of
        (True, st') \<Rightarrow> \<exists>x. (x, x) \<in> ?E\<^sup>+
      | (False, st') \<Rightarrow> snd st' = snd (visited, recursionStack)
          \<and> fst (visited, recursionStack) \<subseteq> fst st'
          \<and> set (neighbor # rest) \<subseteq> fst st' - snd (visited, recursionStack)
          \<and> dfsInv adj st'"
    proof (cases "neighbor \<in> visited")
      case False
      have pathsN: "\<forall>s \<in> snd (visited, recursionStack). (s, neighbor) \<in> ?E\<^sup>*"
        using paths edge by (auto intro: rtrancl_into_rtrancl)
      obtain b st1 where r: "hasCycle adj neighbor (visited, recursionStack) = (b, st1)"
        by (cases "hasCycle adj neighbor (visited, recursionStack)") auto
      have ih1: "case hasCycle adj neighbor (visited, recursionStack) of
          (True, st') \<Rightarrow> \<exists>x. (x, x) \<in> ?E\<^sup>+
        | (False, st') \<Rightarrow> snd st' = snd (visited, recursionStack)
            \<and> fst (visited, recursionStack) \<subseteq> fst st' \<and> neighbor \<in> fst st' \<and> dfsInv adj st'"
        using 3(1) [OF False 3(4) _ pathsN] False by simp
      show ?thesis
      proof (cases b)
        case True
        with ih1 r False show ?thesis by simp
      next
        case bF: False
        with ih1 r have st1: "snd st1 = recursionStack" "visited \<subseteq> fst st1"
          "neighbor \<in> fst st1" "dfsInv adj st1"
          by auto
        have pre2: "m \<in> snd st1 \<and> (\<forall>s \<in> snd st1. (s, m) \<in> ?E\<^sup>*)
            \<and> set rest \<subseteq> set (neighborsOf adj m)"
          using st1(1) mS paths rest by simp
        have nb: "b = False" using bF by simp
        from 3(2) [OF False r [symmetric] nb st1(4), THEN spec, THEN mp, OF pre2]
        have ih2: "case forNeighbors adj rest st1 of
            (True, st') \<Rightarrow> \<exists>x. (x, x) \<in> ?E\<^sup>+
          | (False, st') \<Rightarrow> snd st' = snd st1 \<and> fst st1 \<subseteq> fst st'
              \<and> set rest \<subseteq> fst st' - snd st1 \<and> dfsInv adj st'" .
        have nS: "neighbor \<notin> recursionStack" using False SV by auto
        from ih2 st1 nS show ?thesis
          using False r bF by (auto split: prod.splits bool.splits)
      qed
    next
      case True
      show ?thesis
      proof (cases "neighbor \<in> recursionStack")
        case onStack: True
        then have "(neighbor, m) \<in> ?E\<^sup>*" using paths by simp
        from this edge have "(neighbor, neighbor) \<in> ?E\<^sup>+" by (rule rtrancl_into_trancl1)
        with True onStack show ?thesis by auto
      next
        case off: False
        have pre3: "m \<in> snd (visited, recursionStack)
            \<and> (\<forall>s \<in> snd (visited, recursionStack). (s, m) \<in> ?E\<^sup>*)
            \<and> set rest \<subseteq> set (neighborsOf adj m)"
          using mS paths rest by simp
        have vis: "\<not> neighbor \<notin> visited" using True by simp
        from 3(3) [OF vis off 3(4), THEN spec, THEN mp, OF pre3]
        have ih3: "case forNeighbors adj rest (visited, recursionStack) of
            (True, st') \<Rightarrow> \<exists>x. (x, x) \<in> ?E\<^sup>+
          | (False, st') \<Rightarrow> snd st' = snd (visited, recursionStack)
              \<and> fst (visited, recursionStack) \<subseteq> fst st'
              \<and> set rest \<subseteq> fst st' - snd (visited, recursionStack) \<and> dfsInv adj st'" .
        then show ?thesis
          using True off by (auto split: prod.splits bool.splits)
      qed
    qed
  qed
qed

lemma forNodes_sound:
  "dfsInv adj (V, {}) \<Longrightarrow>
   (if forNodes adj ids (V, {}) then \<exists>x. (x, x) \<in> (edgesOf adj)\<^sup>+
    else \<exists>V'. V \<union> set ids \<subseteq> V' \<and> dfsInv adj (V', {}))"
proof (induction ids arbitrary: V)
  case Nil
  then show ?case by auto
next
  case (Cons nodeId rest)
  show ?case
  proof (cases "nodeId \<in> V")
    case True
    then have f: "forNodes adj (nodeId # rest) (V, {}) = forNodes adj rest (V, {})" by simp
    from Cons.IH [OF Cons.prems] True show ?thesis
      by (cases "forNodes adj rest (V, {})") (auto simp: f simp del: forNodes.simps)
  next
    case False
    obtain b st1 where r: "hasCycle adj nodeId (V, {}) = (b, st1)"
      by (cases "hasCycle adj nodeId (V, {})") auto
    have s: "case hasCycle adj nodeId (V, {}) of
          (True, st') \<Rightarrow> \<exists>x. (x, x) \<in> (edgesOf adj)\<^sup>+
        | (False, st') \<Rightarrow> snd st' = snd (V, {}::string set)
            \<and> fst (V, {}::string set) \<subseteq> fst st'
            \<and> nodeId \<in> fst st' \<and> dfsInv adj st'"
      by (rule dfs_sound(1) [OF Cons.prems]) (use False in simp_all)
    show ?thesis
    proof (cases b)
      case True
      with s r False show ?thesis by simp
    next
      case bF: False
      with s r obtain V1 where st1: "st1 = (V1, {})" "V \<subseteq> V1" "nodeId \<in> V1" "dfsInv adj (V1, {})"
        by (cases st1) auto
      have f: "forNodes adj (nodeId # rest) (V, {}) = forNodes adj rest (V1, {})"
        using False r bF st1(1) by simp
      from Cons.IH [OF st1(4)] st1(2,3) show ?thesis
        by (cases "forNodes adj rest (V1, {})") (auto simp: f simp del: forNodes.simps)
    qed
  qed
qed

lemma forNodes_iff_cycle:
  assumes "Domain (edgesOf adj) \<subseteq> set ids"
  shows "forNodes adj ids ({}, {}) \<longleftrightarrow> \<not> acyclic (edgesOf adj)"
proof -
  have inv0: "dfsInv adj ({}, {})" by (simp add: dfsInv_def)
  show ?thesis
  proof (cases "forNodes adj ids ({}, {})")
    case True
    with forNodes_sound [OF inv0, of ids] show ?thesis by (auto simp: acyclic_def)
  next
    case False
    with forNodes_sound [OF inv0, of ids] obtain V' where V': "set ids \<subseteq> V'" "dfsInv adj (V', {})"
      by auto
    have "(x, x) \<notin> (edgesOf adj)\<^sup>+" for x
    proof
      assume c: "(x, x) \<in> (edgesOf adj)\<^sup>+"
      then have "x \<in> Domain (edgesOf adj)" by (meson Domain.DomainI tranclD)
      with assms V'(1) have "x \<in> V'" by auto
      with V'(2) c show False by (auto simp: dfsInv_def)
    qed
    with False show ?thesis by (simp add: acyclic_def)
  qed
qed

lemma neighborsOf_emptyAdjacency_aux:
  "neighborsOf (fold (\<lambda>i m. fmupd i [] m) ids adj) x
     = (if x \<in> set ids then [] else neighborsOf adj x)"
  by (induction ids arbitrary: adj) (auto simp: neighborsOf_def)

lemma fmdom'_emptyAdjacency_aux:
  "fmdom' (fold (\<lambda>i m. fmupd i [] m) ids adj) = set ids \<union> fmdom' adj"
  by (induction ids arbitrary: adj) auto

lemma neighborsOf_emptyAdjacency [simp]: "neighborsOf (emptyAdjacency ids) x = []"
  unfolding emptyAdjacency_def neighborsOf_emptyAdjacency_aux by (simp add: neighborsOf_def)

lemma edgesOf_emptyAdjacency [simp]: "edgesOf (emptyAdjacency ids) = {}"
  by (simp add: edgesOf_def)

lemma fmdom'_emptyAdjacency [simp]: "fmdom' (emptyAdjacency ids) = set ids"
  by (simp add: emptyAdjacency_def fmdom'_emptyAdjacency_aux)

lemma pushEdge_present:
  assumes "s \<in> fmdom' adj"
  shows "pushEdge adj s t = fmupd s (neighborsOf adj s @ [t]) adj"
proof -
  from assms obtain l where "fmlookup adj s = Some l" by (auto simp: fmlookup_dom'_iff)
  then show ?thesis by (simp add: pushEdge_def neighborsOf_def)
qed

lemma neighborsOf_fmupd:
  "neighborsOf (fmupd s l adj) a = (if a = s then l else neighborsOf adj a)"
  by (simp add: neighborsOf_def)

lemma edgesOf_pushEdge:
  assumes "s \<in> fmdom' adj"
  shows "edgesOf (pushEdge adj s t) = insert (s, t) (edgesOf adj)"
  unfolding pushEdge_present [OF assms] edgesOf_def neighborsOf_fmupd
  by (auto split: if_splits)

lemma fmdom'_pushEdge:
  assumes "s \<in> fmdom' adj"
  shows "fmdom' (pushEdge adj s t) = fmdom' adj"
  unfolding pushEdge_present [OF assms] using assms by auto

lemma addEdges_None:
  "addEdges ids es adj = None \<longleftrightarrow>
   (\<exists>e \<in> set es. source e \<notin> set ids \<or> target e \<notin> set ids)"
  by (induction es arbitrary: adj) auto

lemma edgeRel_Nil [simp]: "edgeRel [] = {}"
  by (simp add: edgeRel_def)

lemma edgeRel_Cons [simp]: "edgeRel (e # es) = insert (source e, target e) (edgeRel es)"
  unfolding edgeRel_def by auto

lemma addEdges_Some:
  "addEdges ids es adj = Some adj' \<Longrightarrow> set ids \<subseteq> fmdom' adj \<Longrightarrow>
   edgesOf adj' = edgesOf adj \<union> edgeRel es \<and> fmdom' adj' = fmdom' adj"
proof (induction es arbitrary: adj)
  case Nil
  then show ?case by simp
next
  case (Cons e es)
  from Cons.prems(1) have wf: "source e \<in> set ids" "target e \<in> set ids"
    and rec: "addEdges ids es (pushEdge adj (source e) (target e)) = Some adj'"
    by (simp_all split: if_splits)
  have s: "source e \<in> fmdom' adj" using wf(1) Cons.prems(2) by blast
  have d: "set ids \<subseteq> fmdom' (pushEdge adj (source e) (target e))"
    using Cons.prems(2) by (simp add: fmdom'_pushEdge [OF s])
  from Cons.IH [OF rec d] show ?case
    by (simp add: edgesOf_pushEdge [OF s] fmdom'_pushEdge [OF s])
qed

lemma Domain_edgesOf: "Domain (edgesOf adj) \<subseteq> fmdom' adj"
proof
  fix a
  assume "a \<in> Domain (edgesOf adj)"
  then obtain b where "b \<in> set (neighborsOf adj a)"
    unfolding edgesOf_def by blast
  then obtain l where "fmlookup adj a = Some l"
    by (cases "fmlookup adj a") (simp_all add: neighborsOf_def)
  then show "a \<in> fmdom' adj" by (rule fmdom'I)
qed

lemma validateDAG_char:
  "validateDAG nodes edges =
     (if \<exists>e \<in> set edges. source e \<notin> ident ` set nodes \<or> target e \<notin> ident ` set nodes
      then \<lparr>valid = False, error = Some ''Edge references non-existent node''\<rparr>
      else if \<not> acyclic (edgeRel edges)
      then \<lparr>valid = False, error = Some ''Workflow contains a cycle''\<rparr>
      else \<lparr>valid = True, error = None\<rparr>)"
proof (cases "addEdges (newSet (map ident nodes)) edges (emptyAdjacency (newSet (map ident nodes)))")
  case None
  then show ?thesis
    using addEdges_None [of "newSet (map ident nodes)" edges]
    by (auto simp: validateDAG_def)
next
  case (Some adj)
  have wf: "\<not> (\<exists>e \<in> set edges. source e \<notin> ident ` set nodes \<or> target e \<notin> ident ` set nodes)"
    using addEdges_None [of "newSet (map ident nodes)" edges
        "emptyAdjacency (newSet (map ident nodes))"] Some by auto
  from addEdges_Some [OF Some] have E: "edgesOf adj = edgeRel edges"
    and D: "fmdom' adj = set (newSet (map ident nodes))"
    by auto
  have "Domain (edgesOf adj) \<subseteq> set (newSet (map ident nodes))"
    using Domain_edgesOf [of adj] D by simp
  from forNodes_iff_cycle [OF this] E
  have "forNodes adj (newSet (map ident nodes)) ({}, {}) \<longleftrightarrow> \<not> acyclic (edgeRel edges)"
    by simp
  with Some wf show ?thesis
    by (simp add: validateDAG_def)
qed

lemmas example_defs = exNode_def exEdge_def diamondNodes_def diamondEdges_def

lemma cycle_AB: "\<not> acyclic (edgeRel (exEdge ''A'' ''B'' # exEdge ''B'' ''A'' # es))"
proof -
  let ?R = "edgeRel (exEdge ''A'' ''B'' # exEdge ''B'' ''A'' # es)"
  have "(''A'', ''B'') \<in> ?R" "(''B'', ''A'') \<in> ?R" by (simp_all add: exEdge_def)
  then have "(''A'', ''A'') \<in> ?R\<^sup>+" by (meson r_into_trancl' trancl_trans)
  then show ?thesis unfolding acyclic_def by blast
qed

text \<open>
  C4, as stated, gives every graph with a cycle the cycle reason. When an edge also names
  an absent node the validator has returned before it looks for cycles: the reason is the
  one of the edge.
\<close>

theorem C4_cycle_with_dangling_edge:
  "\<not> acyclic (edgeRel [exEdge ''A'' ''B'', exEdge ''B'' ''A'', exEdge ''A'' ''Z''])
   \<and> validateDAG [exNode ''A'', exNode ''B'']
        [exEdge ''A'' ''B'', exEdge ''B'' ''A'', exEdge ''A'' ''Z'']
      = \<lparr>valid = False, error = Some ''Edge references non-existent node''\<rparr>"
proof -
  have "validateDAG [exNode ''A'', exNode ''B'']
        [exEdge ''A'' ''B'', exEdge ''B'' ''A'', exEdge ''A'' ''Z'']
      = \<lparr>valid = False, error = Some ''Edge references non-existent node''\<rparr>"
    by (simp add: validateDAG_def newSet_def setAdd_def example_defs emptyAdjacency_def
        pushEdge_def)
  with cycle_AB show ?thesis by blast
qed

text \<open>
  C4, amended: if every edge names existing node ids and the edge relation is acyclic,
  \<open>validateDAG\<close> returns valid; if an edge names an absent node id, it returns invalid with
  the edge reason, whether or not there is a cycle; if the edge relation has a cycle, it
  returns invalid, with the cycle reason when every edge names existing node ids.
\<close>

theorem C4_validateDAG:
  "((\<forall>e \<in> set edges. source e \<in> ident ` set nodes \<and> target e \<in> ident ` set nodes)
      \<and> acyclic (edgeRel edges)
     \<longrightarrow> validateDAG nodes edges = \<lparr>valid = True, error = None\<rparr>)
   \<and> ((\<exists>e \<in> set edges. source e \<notin> ident ` set nodes \<or> target e \<notin> ident ` set nodes)
     \<longrightarrow> validateDAG nodes edges
         = \<lparr>valid = False, error = Some ''Edge references non-existent node''\<rparr>)
   \<and> (\<not> acyclic (edgeRel edges)
     \<longrightarrow> \<not> valid (validateDAG nodes edges)
        \<and> ((\<forall>e \<in> set edges. source e \<in> ident ` set nodes \<and> target e \<in> ident ` set nodes)
           \<longrightarrow> validateDAG nodes edges
               = \<lparr>valid = False, error = Some ''Workflow contains a cycle''\<rparr>))"
  unfolding validateDAG_char [of nodes edges] by auto

lemma acyclic_diamond: "acyclic (edgeRel diamondEdges)"
proof (rule acyclicI_order)
  fix a b
  assume "(a, b) \<in> edgeRel diamondEdges"
  then show "length (filter (\<lambda>x. x = b) [''A'', ''A'', ''A'', ''B'', ''B'', ''C'', ''C'', ''D''])
      < length (filter (\<lambda>x. x = a) [''A'', ''A'', ''A'', ''B'', ''B'', ''C'', ''C'', ''D''])"
    by (auto simp: example_defs)
qed

theorem C4_validateDAG_witness:
  "validateDAG diamondNodes diamondEdges = \<lparr>valid = True, error = None\<rparr>
   \<and> validateDAG [exNode ''A'', exNode ''B''] [exEdge ''A'' ''Z'']
       = \<lparr>valid = False, error = Some ''Edge references non-existent node''\<rparr>
   \<and> validateDAG [exNode ''A'', exNode ''B''] [exEdge ''A'' ''B'', exEdge ''B'' ''A'']
       = \<lparr>valid = False, error = Some ''Workflow contains a cycle''\<rparr>"
proof -
  have wf1: "\<forall>e \<in> set diamondEdges.
      source e \<in> ident ` set diamondNodes \<and> target e \<in> ident ` set diamondNodes"
    by (simp add: example_defs)
  have d2: "\<exists>e \<in> set [exEdge ''A'' ''Z''].
      source e \<notin> ident ` set [exNode ''A'', exNode ''B'']
      \<or> target e \<notin> ident ` set [exNode ''A'', exNode ''B'']"
    by (simp add: example_defs)
  have wf3: "\<forall>e \<in> set [exEdge ''A'' ''B'', exEdge ''B'' ''A''].
      source e \<in> ident ` set [exNode ''A'', exNode ''B'']
      \<and> target e \<in> ident ` set [exNode ''A'', exNode ''B'']"
    by (simp add: example_defs)
  have c3: "\<not> acyclic (edgeRel [exEdge ''A'' ''B'', exEdge ''B'' ''A''])"
    by (rule cycle_AB)
  from C4_validateDAG [of diamondEdges diamondNodes] wf1 acyclic_diamond
  have a: "validateDAG diamondNodes diamondEdges = \<lparr>valid = True, error = None\<rparr>"
    by blast
  from C4_validateDAG [of "[exEdge ''A'' ''Z'']" "[exNode ''A'', exNode ''B'']"] d2
  have b: "validateDAG [exNode ''A'', exNode ''B''] [exEdge ''A'' ''Z'']
       = \<lparr>valid = False, error = Some ''Edge references non-existent node''\<rparr>"
    by blast
  from C4_validateDAG [of "[exEdge ''A'' ''B'', exEdge ''B'' ''A'']"
      "[exNode ''A'', exNode ''B'']"] wf3 c3
  have c: "validateDAG [exNode ''A'', exNode ''B''] [exEdge ''A'' ''B'', exEdge ''B'' ''A'']
       = \<lparr>valid = False, error = Some ''Workflow contains a cycle''\<rparr>"
    by blast
  from a b c show ?thesis by blast
qed

section \<open>Wave scheduler\<close>

lemma incoming_Nil [simp]: "incoming adj [] v = 0"
  by (simp add: incoming_def)

lemma incoming_Cons [simp]:
  "incoming adj (u # R) v = count_list (neighborsOf adj u) v + incoming adj R v"
  by (simp add: incoming_def)

lemma incoming_absent: "u \<notin> set R \<Longrightarrow> incoming adj (removeAll u R) v = incoming adj R v"
  by simp

lemma incoming_removeAll:
  "distinct R \<Longrightarrow> u \<in> set R \<Longrightarrow>
   incoming adj R v = count_list (neighborsOf adj u) v + incoming adj (removeAll u R) v"
proof (induction R)
  case Nil
  then show ?case by simp
next
  case (Cons w R)
  show ?case
  proof (cases "w = u")
    case True
    with Cons.prems show ?thesis by simp
  next
    case False
    with Cons show ?thesis by simp
  qed
qed

lemma incoming_zero_iff:
  "incoming adj R v = 0 \<longleftrightarrow> (\<forall>u \<in> set R. (u, v) \<notin> edgesOf adj)"
  by (induction R) (auto simp: edgesOf_def count_list_0_iff)

lemma lookup_decrement:
  "fmlookup (decrement d k) v
     = (if v = k then map_option (\<lambda>n. n - 1) (fmlookup d v) else fmlookup d v)"
  by (cases "fmlookup d k") (simp_all add: decrement_def)

lemma lookup_fold_decrement:
  "fmlookup (fold (\<lambda>neighbor d. if neighbor \<in> S then decrement d neighbor else d) l d) v
     = (if v \<in> S then map_option (\<lambda>n. n - int (count_list l v)) (fmlookup d v)
        else fmlookup d v)"
proof (induction l arbitrary: d)
  case Nil
  show ?case by (cases "fmlookup d v") simp_all
next
  case (Cons nb l)
  show ?case
    by (cases "fmlookup d v") (auto simp: Cons.IH lookup_decrement)
qed

lemma removeNode_fst: "fst (removeNode adj u (R, d)) = removeAll u R"
  by (simp add: removeNode_def)

lemma removeNode_inv:
  assumes inv: "wavesInv adj R d" and u: "u \<in> set R"
  shows "wavesInv adj (removeAll u R) (snd (removeNode adj u (R, d)))"
proof -
  have dist: "distinct R" using inv by (simp add: wavesInv_def)
  have look: "fmlookup d v = Some (int (incoming adj R v))" if "v \<in> set R" for v
    using inv that by (simp add: wavesInv_def)
  have "fmlookup (snd (removeNode adj u (R, d))) v
      = Some (int (incoming adj (removeAll u R) v))" if v: "v \<in> set (removeAll u R)" for v
  proof -
    from v have vR: "v \<in> set R" by simp
    have "fmlookup (snd (removeNode adj u (R, d))) v
        = map_option (\<lambda>n. n - int (count_list (neighborsOf adj u) v)) (fmlookup d v)"
      unfolding removeNode_def Let_def snd_conv fst_conv lookup_fold_decrement
      using v by (simp del: set_removeAll)
    also have "\<dots> = Some (int (incoming adj R v) - int (count_list (neighborsOf adj u) v))"
      by (simp add: look [OF vR])
    also have "\<dots> = Some (int (incoming adj (removeAll u R) v))"
      using incoming_removeAll [OF dist u, of adj v] by simp
    finally show ?thesis .
  qed
  with dist show ?thesis by (simp add: wavesInv_def distinct_removeAll)
qed

lemma fold_removeNode_inv:
  "wavesInv adj R d \<Longrightarrow> distinct g \<Longrightarrow> set g \<subseteq> set R \<Longrightarrow>
   fst (fold (removeNode adj) g (R, d)) = filter (\<lambda>x. x \<notin> set g) R
   \<and> wavesInv adj (fst (fold (removeNode adj) g (R, d))) (snd (fold (removeNode adj) g (R, d)))"
proof (induction g arbitrary: R d)
  case Nil
  then show ?case by simp
next
  case (Cons u g)
  let ?R1 = "removeAll u R"
  have u: "u \<in> set R" using Cons.prems(3) by simp
  obtain d1 where step: "removeNode adj u (R, d) = (?R1, d1)"
    by (simp add: removeNode_def)
  have inv1: "wavesInv adj ?R1 d1"
    using removeNode_inv [OF Cons.prems(1) u] step by simp
  have g: "distinct g" "set g \<subseteq> set ?R1"
    using Cons.prems(2,3) by auto
  have f: "filter (\<lambda>x. x \<notin> set g) ?R1 = filter (\<lambda>x. x \<notin> set (u # g)) R"
    by (auto simp: removeAll_filter_not_eq intro: filter_cong)
  have e: "fold (removeNode adj) (u # g) (R, d) = fold (removeNode adj) g (?R1, d1)"
    by (simp add: step)
  from Cons.IH [OF inv1 g] show ?case
    unfolding e f by blast
qed

lemma finite_edgesOf_restricted: "finite (edgesOf adj \<inter> (set R \<times> set R))"
  by (rule finite_subset [of _ "set R \<times> set R"]) auto

lemma waves_progress:
  assumes "acyclic (edgesOf adj)" "R \<noteq> []"
  shows "\<exists>v \<in> set R. incoming adj R v = 0"
proof -
  let ?r = "edgesOf adj \<inter> (set R \<times> set R)"
  have "acyclic ?r" using assms(1) by (rule acyclic_subset) simp
  with finite_edgesOf_restricted have "wf ?r" by (rule finite_acyclic_wf)
  moreover from assms(2) obtain x where "x \<in> set R" by (cases R) auto
  ultimately obtain z where z: "z \<in> set R" "\<And>y. (y, z) \<in> ?r \<Longrightarrow> y \<notin> set R"
    by (rule wfE_min) blast
  then have "\<forall>u \<in> set R. (u, z) \<notin> edgesOf adj" by blast
  with z(1) show ?thesis by (auto simp: incoming_zero_iff)
qed

lemma ordered_append:
  assumes "ordered adj groups"
    and "\<forall>v \<in> set g. \<forall>u. (u, v) \<in> edgesOf adj \<longrightarrow> u \<in> set (concat groups)"
  shows "ordered adj (groups @ [g])"
  unfolding ordered_def
proof (intro allI impI ballI)
  fix k v u
  assume k: "k < length (groups @ [g])" and v: "v \<in> set ((groups @ [g]) ! k)"
    and e: "(u, v) \<in> edgesOf adj"
  show "u \<in> set (concat (take k (groups @ [g])))"
  proof (cases "k < length groups")
    case True
    with assms(1) v e show ?thesis by (auto simp: ordered_def nth_append)
  next
    case False
    with k have "k = length groups" by simp
    with assms(2) v e show ?thesis by simp
  qed
qed

text \<open>
  The loop on an acyclic graph: it ends with every remaining node in a group, no node
  twice, and the groups in the order of the edges.
\<close>

lemma waves_correct:
  "wavesInv adj R d \<Longrightarrow> acyclic (edgesOf adj) \<Longrightarrow>
   Domain (edgesOf adj) \<subseteq> set (concat groups) \<union> set R \<Longrightarrow>
   distinct (concat groups) \<Longrightarrow> set (concat groups) \<inter> set R = {} \<Longrightarrow>
   ordered adj groups \<Longrightarrow>
   distinct (concat (waves adj R d groups))
   \<and> set (concat (waves adj R d groups)) = set (concat groups) \<union> set R
   \<and> ordered adj (waves adj R d groups)"
proof (induction adj R d groups rule: waves.induct)
  case (1 adj remaining inDegree groups)
  let ?cg = "filter (\<lambda>nodeId. fmlookup inDegree nodeId = Some 0) remaining"
  show ?case
  proof (cases "remaining = []")
    case True
    with 1 show ?thesis by (simp add: waves.simps)
  next
    case False
    have look: "fmlookup inDegree v = Some (int (incoming adj remaining v))"
      if "v \<in> set remaining" for v
      using 1(2) that by (simp add: wavesInv_def)
    have dist: "distinct remaining" using 1(2) by (simp add: wavesInv_def)
    from waves_progress [OF 1(3) False] obtain z where "z \<in> set remaining"
      "incoming adj remaining z = 0" by blast
    then have ne: "?cg \<noteq> []" by (auto simp: look filter_empty_conv)
    obtain R' d' where f: "fold (removeNode adj) ?cg (remaining, inDegree) = (R', d')"
      by (cases "fold (removeNode adj) ?cg (remaining, inDegree)") auto
    from fold_removeNode_inv [OF 1(2), of ?cg] dist f
    have R': "R' = filter (\<lambda>x. x \<notin> set ?cg) remaining" and inv': "wavesInv adj R' d'"
      by auto
    have w: "waves adj remaining inDegree groups = waves adj R' d' (groups @ [?cg])"
      using False ne f by (subst waves.simps) (simp add: Let_def)
    have pred: "\<forall>v \<in> set ?cg. \<forall>u. (u, v) \<in> edgesOf adj \<longrightarrow> u \<in> set (concat groups)"
    proof (intro ballI allI impI)
      fix v u
      assume v: "v \<in> set ?cg" and e: "(u, v) \<in> edgesOf adj"
      then have "incoming adj remaining v = 0" using look by auto
      with e have "u \<notin> set remaining" by (auto simp: incoming_zero_iff)
      moreover from e have "u \<in> Domain (edgesOf adj)" by blast
      ultimately show "u \<in> set (concat groups)" using 1(4) by blast
    qed
    have a: "Domain (edgesOf adj) \<subseteq> set (concat (groups @ [?cg])) \<union> set R'"
      using 1(4) R' by auto
    have b: "distinct (concat (groups @ [?cg]))"
      using 1(5,6) dist by auto
    have c: "set (concat (groups @ [?cg])) \<inter> set R' = {}"
      using 1(6) R' by auto
    have o: "ordered adj (groups @ [?cg])"
      using ordered_append [OF 1(7) pred] .
    from 1(1) [OF False refl ne f [symmetric] inv' 1(3) a b c o]
    have "distinct (concat (waves adj R' d' (groups @ [?cg])))
      \<and> set (concat (waves adj R' d' (groups @ [?cg]))) = set (concat (groups @ [?cg])) \<union> set R'
      \<and> ordered adj (waves adj R' d' (groups @ [?cg]))" .
    moreover have "set (concat (groups @ [?cg])) \<union> set R' = set (concat groups) \<union> set remaining"
      using R' by auto
    ultimately show ?thesis unfolding w by simp
  qed
qed

lemma incoming_pushEdge:
  assumes "s \<in> fmdom' adj"
  shows "distinct ids \<Longrightarrow> s \<in> set ids \<Longrightarrow>
    incoming (pushEdge adj s t) ids v = incoming adj ids v + (if v = t then 1 else 0)"
    and "s \<notin> set ids \<Longrightarrow> incoming (pushEdge adj s t) ids v = incoming adj ids v"
proof (induction ids)
  case Nil
  {
    case 1
    then show ?case by simp
  next
    case 2
    then show ?case by simp
  }
next
  case (Cons w ids)
  {
    case 1
    with Cons show ?case
      by (cases "w = s") (auto simp: pushEdge_present [OF assms] neighborsOf_fmupd)
  next
    case 2
    with Cons show ?case
      by (auto simp: pushEdge_present [OF assms] neighborsOf_fmupd)
  }
qed

lemma lookup_zeroDegrees_aux:
  "fmlookup (fold (\<lambda>i m. fmupd i 0 m) ids d) v = (if v \<in> set ids then Some 0 else fmlookup d v)"
  by (induction ids arbitrary: d) auto

lemma lookup_zeroDegrees: "v \<in> set ids \<Longrightarrow> fmlookup (zeroDegrees ids) v = Some 0"
  by (simp add: zeroDegrees_def lookup_zeroDegrees_aux)

lemma incoming_emptyAdjacency [simp]: "incoming (emptyAdjacency ids) R v = 0"
  by (induction R) simp_all

text \<open>The graph built by the edge loop: the edges between known nodes, and for every node
  the number of them that enter it.\<close>

lemma buildGraph_correct:
  "buildGraph ids es (adj, d) = (adj', d') \<Longrightarrow> distinct ids \<Longrightarrow> set ids \<subseteq> fmdom' adj \<Longrightarrow>
   \<forall>v \<in> set ids. fmlookup d v = Some (int (incoming adj ids v)) \<Longrightarrow>
   edgesOf adj' = edgesOf adj
       \<union> edgeRel (filter (\<lambda>e. source e \<in> set ids \<and> target e \<in> set ids) es)
   \<and> fmdom' adj' = fmdom' adj
   \<and> (\<forall>v \<in> set ids. fmlookup d' v = Some (int (incoming adj' ids v)))"
proof (induction es arbitrary: adj d)
  case Nil
  then show ?case by simp
next
  case (Cons e es)
  show ?case
  proof (cases "source e \<in> set ids \<and> target e \<in> set ids")
    case False
    with Cons.prems(1) have "buildGraph ids es (adj, d) = (adj', d')" by auto
    from Cons.IH [OF this Cons.prems(2-4)] False show ?thesis by auto
  next
    case True
    let ?adj1 = "pushEdge adj (source e) (target e)"
    let ?d1 = "fmupd (target e) (getOr0 d (target e) + 1) d"
    have s: "source e \<in> fmdom' adj" using True Cons.prems(3) by blast
    from True Cons.prems(1) have rec: "buildGraph ids es (?adj1, ?d1) = (adj', d')" by simp
    have dom1: "set ids \<subseteq> fmdom' ?adj1"
      using Cons.prems(3) by (simp add: fmdom'_pushEdge [OF s])
    have inc: "incoming ?adj1 ids v = incoming adj ids v + (if v = target e then 1 else 0)" for v
      using incoming_pushEdge(1) [OF s Cons.prems(2)] True by simp
    have t: "getOr0 d (target e) = int (incoming adj ids (target e))"
      using Cons.prems(4) True by (simp add: getOr0_def)
    have deg1: "\<forall>v \<in> set ids. fmlookup ?d1 v = Some (int (incoming ?adj1 ids v))"
      using Cons.prems(4) by (simp add: inc t)
    from Cons.IH [OF rec Cons.prems(2) dom1 deg1] True show ?thesis
      by (simp add: edgesOf_pushEdge [OF s] fmdom'_pushEdge [OF s])
  qed
qed

lemma getParallelGroups_correct:
  assumes "acyclic (edgeRel (knownEdges nodes edges))"
  shows "distinct (concat (getParallelGroups nodes edges))"
    and "set (concat (getParallelGroups nodes edges)) = ident ` set nodes"
    and "\<exists>adj. edgesOf adj = edgeRel (knownEdges nodes edges)
           \<and> ordered adj (getParallelGroups nodes edges)"
proof -
  let ?ids = "newSet (map ident nodes)"
  obtain adj d where b: "buildGraph ?ids edges (emptyAdjacency ?ids, zeroDegrees ?ids) = (adj, d)"
    by (cases "buildGraph ?ids edges (emptyAdjacency ?ids, zeroDegrees ?ids)") auto
  have "\<forall>v \<in> set ?ids. fmlookup (zeroDegrees ?ids) v
      = Some (int (incoming (emptyAdjacency ?ids) ?ids v))"
    by (simp add: lookup_zeroDegrees)
  from buildGraph_correct [OF b _ _ this]
  have E: "edgesOf adj = edgeRel (knownEdges nodes edges)"
    and D: "fmdom' adj = set ?ids"
    and deg: "\<forall>v \<in> set ?ids. fmlookup d v = Some (int (incoming adj ?ids v))"
    by (simp_all add: knownEdges_def)
  have inv: "wavesInv adj ?ids d" using deg by (simp add: wavesInv_def)
  have acyc: "acyclic (edgesOf adj)" using assms E by simp
  have dom: "Domain (edgesOf adj) \<subseteq> set (concat []) \<union> set ?ids"
    using Domain_edgesOf [of adj] D by simp
  have g: "getParallelGroups nodes edges = waves adj ?ids d []"
    by (simp add: getParallelGroups_def b)
  from waves_correct [OF inv acyc dom]
  have r: "distinct (concat (waves adj ?ids d []))
      \<and> set (concat (waves adj ?ids d [])) = set (concat []) \<union> set ?ids
      \<and> ordered adj (waves adj ?ids d [])"
    by (simp add: ordered_def)
  from r show "distinct (concat (getParallelGroups nodes edges))" by (simp add: g)
  from r show "set (concat (getParallelGroups nodes edges)) = ident ` set nodes"
    by (simp add: g)
  from r E show "\<exists>adj. edgesOf adj = edgeRel (knownEdges nodes edges)
           \<and> ordered adj (getParallelGroups nodes edges)"
    unfolding g by blast
qed

text \<open>
  C1: for an acyclic input (the edges between nodes of the node set form no cycle) the
  groups of \<open>getParallelGroups\<close> contain every node id exactly once, and for every edge
  with both ends in the node set the source lies in a group strictly before the group of
  the target.
\<close>

theorem C1_getParallelGroups:
  assumes "acyclic (edgeRel (knownEdges nodes edges))"
  shows "distinct (concat (getParallelGroups nodes edges))
    \<and> set (concat (getParallelGroups nodes edges)) = ident ` set nodes
    \<and> (\<forall>e \<in> set edges.
         source e \<in> ident ` set nodes \<and> target e \<in> ident ` set nodes \<longrightarrow>
         (\<exists>i j. i < j \<and> j < length (getParallelGroups nodes edges)
            \<and> source e \<in> set (getParallelGroups nodes edges ! i)
            \<and> target e \<in> set (getParallelGroups nodes edges ! j)))"
proof (intro conjI ballI impI)
  let ?gs = "getParallelGroups nodes edges"
  show "distinct (concat ?gs)" using getParallelGroups_correct(1) [OF assms] .
  show all: "set (concat ?gs) = ident ` set nodes" using getParallelGroups_correct(2) [OF assms] .
  fix e
  assume e: "e \<in> set edges" and k: "source e \<in> ident ` set nodes \<and> target e \<in> ident ` set nodes"
  from getParallelGroups_correct(3) [OF assms] obtain adj
    where E: "edgesOf adj = edgeRel (knownEdges nodes edges)" and o: "ordered adj ?gs"
    by blast
  have edge: "(source e, target e) \<in> edgesOf adj"
    unfolding E edgeRel_def knownEdges_def using e k by auto
  from k all have "target e \<in> set (concat ?gs)" by simp
  then obtain g where "g \<in> set ?gs" "target e \<in> set g" by auto
  then obtain j where j: "j < length ?gs" "target e \<in> set (?gs ! j)"
    by (metis in_set_conv_nth)
  with o edge have "source e \<in> set (concat (take j ?gs))"
    unfolding ordered_def by blast
  then obtain g' where "g' \<in> set (take j ?gs)" "source e \<in> set g'" by auto
  then obtain i where i: "i < length (take j ?gs)" "source e \<in> set (take j ?gs ! i)"
    by (metis in_set_conv_nth)
  then have "i < j" "source e \<in> set (?gs ! i)" by simp_all
  with j show "\<exists>i j. i < j \<and> j < length ?gs \<and> source e \<in> set (?gs ! i) \<and> target e \<in> set (?gs ! j)"
    by blast
qed

lemma diamond_groups:
  "getParallelGroups diamondNodes diamondEdges = [[''A''], [''B'', ''C''], [''D'']]"
  by (simp add: getParallelGroups_def example_defs newSet_def setAdd_def emptyAdjacency_def
      zeroDegrees_def pushEdge_def getOr0_def waves.simps removeNode_def neighborsOf_def
      decrement_def)

theorem C1_getParallelGroups_witness:
  "acyclic (edgeRel (knownEdges diamondNodes diamondEdges))
   \<and> distinct (concat (getParallelGroups diamondNodes diamondEdges))
   \<and> set (concat (getParallelGroups diamondNodes diamondEdges)) = {''A'', ''B'', ''C'', ''D''}
   \<and> (\<exists>i j. i < j \<and> j < length (getParallelGroups diamondNodes diamondEdges)
          \<and> ''B'' \<in> set (getParallelGroups diamondNodes diamondEdges ! i)
          \<and> ''D'' \<in> set (getParallelGroups diamondNodes diamondEdges ! j))"
proof -
  have k: "knownEdges diamondNodes diamondEdges = diamondEdges"
    by (simp add: knownEdges_def example_defs)
  have a: "acyclic (edgeRel (knownEdges diamondNodes diamondEdges))"
    unfolding k by (rule acyclic_diamond)
  have ids: "ident ` set diamondNodes = {''A'', ''B'', ''C'', ''D''}"
    by (simp add: example_defs)
  have e: "exEdge ''B'' ''D'' \<in> set diamondEdges"
    "source (exEdge ''B'' ''D'') = ''B''" "target (exEdge ''B'' ''D'') = ''D''"
    by (simp_all add: example_defs)
  note th = C1_getParallelGroups [OF a, unfolded ids]
  from th have d: "distinct (concat (getParallelGroups diamondNodes diamondEdges))"
    by (rule conjunct1)
  from th have s: "set (concat (getParallelGroups diamondNodes diamondEdges))
      = {''A'', ''B'', ''C'', ''D''}"
    by (rule conjunct1 [OF conjunct2])
  from th [THEN conjunct2, THEN conjunct2, THEN bspec, OF e(1)]
  have o: "\<exists>i j. i < j \<and> j < length (getParallelGroups diamondNodes diamondEdges)
          \<and> ''B'' \<in> set (getParallelGroups diamondNodes diamondEdges ! i)
          \<and> ''D'' \<in> set (getParallelGroups diamondNodes diamondEdges ! j)"
    unfolding e(2,3) by simp
  from a d s o show ?thesis by (intro conjI)
qed


section \<open>Execution engine\<close>

lemma dom_updateNodeLog [simp]: "dom (updateNodeLog lg n st out err dur) = dom lg"
  by (auto simp: updateNodeLog_def split: option.splits)








lemma shows_phase_simps [simp]:
  "shows_phase l Absent"
  "shows_phase l Dispatched = (l = pendingLog)"
  "shows_phase l Executing = (l = pendingLog\<lparr>log_status := RUNNING\<rparr>)"
  "shows_phase l Returned
     = (log_status l = SUCCESS \<and> log_output l \<noteq> None \<and> log_error l = None
        \<and> log_duration l \<noteq> None)"
  "shows_phase l (Threw t)
     = (log_status l = FAILED \<and> log_output l = None \<and> log_error l = Some (errorMessage t)
        \<and> log_duration l \<noteq> None)"
  by (simp_all add: shows_phase_def)

























end
